theory Spec2Isabelle
  imports Complex_Main "HOL-Library.Word"
begin

section \<open>Shared data: errors, floats, graphs\<close>

text \<open>
  The exceptions that the modelled code can raise. \<open>ValueError\<close> is the failed tuple
  unpacking of an empty \<open>zip\<close>, \<open>KeyError\<close> a missing dictionary key,
  \<open>NameError\<close> the use of the unbound module name \<open>nx\<close>, and
  \<open>AttributeError\<close> a call of a method the graph object does not have.
\<close>

datatype error = ValueError | KeyError | NameError | AttributeError

text \<open>
  Floating-point results as far as the code inspects them: a number, positive infinity, or
  NaN. Numbers are kept exact (rationals); the code only compares them with a threshold
  and with zero, and NaN makes every comparison false, as in Python.
\<close>

datatype pyfloat = NaN | Inf | Num rat

fun float_ge :: "pyfloat \<Rightarrow> rat \<Rightarrow> bool" where
  "float_ge NaN t = False"
| "float_ge Inf t = True"
| "float_ge (Num p) t = (t \<le> p)"

text \<open>\<open>e == 0\<close> on a float: false for NaN and for infinity.\<close>

fun float_is_zero :: "pyfloat \<Rightarrow> bool" where
  "float_is_zero (Num q) = (q = 0)"
| "float_is_zero NaN = False"
| "float_is_zero Inf = False"

text \<open>
  Float division of two integer counts as pandas and numpy perform it: no exception on a
  zero divisor, but \<open>0/0 = NaN\<close> and \<open>a/0 = inf\<close> for positive \<open>a\<close>.
\<close>

definition float_div :: "int \<Rightarrow> int \<Rightarrow> pyfloat" where
  "float_div a b = (if b = 0 then (if a = 0 then NaN else Inf) else Num (of_int a / of_int b))"

text \<open>
  \<open>itertools.combinations(xs, k)\<close>: the \<open>k\<close>-element subsequences of \<open>xs\<close> in
  lexicographic order of their positions.
\<close>

fun combinations :: "'a list \<Rightarrow> nat \<Rightarrow> 'a list list" where
  "combinations xs 0 = [[]]"
| "combinations [] (Suc k) = []"
| "combinations (x # xs) (Suc k) = map ((#) x) (combinations xs k) @ combinations xs (Suc k)"

text \<open>\<open>combinations(xs, 2)\<close> read as pairs \<open>(X, Y)\<close>, as the loops unpack them.\<close>

fun pairs :: "'a list \<Rightarrow> ('a \<times> 'a) list" where
  "pairs [] = []"
| "pairs (x # xs) = map (Pair x) xs @ pairs xs"

text \<open>
  Modelled from the spec: the class \<open>UndirectedGraph\<close> of \<open>pgmpy.base\<close> is defined
  outside the module modelled here. The spec gives the graph as a capability over the variables
  (nodes = variables, undirected adjacency, edge removal and query, neighbour
  enumeration). Here a graph is the list of its edges, each stored once as the ordered pair
  it was created from; its nodes are the variables. The order of \<open>neighbors\<close> follows
  the edge list and stands for the dictionary order of the library, which the source does
  not fix. A neighbour is listed once, as in an adjacency dictionary.
\<close>

type_synonym 'v ugraph = "('v \<times> 'v) list"

definition neighbors :: "'v ugraph \<Rightarrow> 'v \<Rightarrow> 'v list" where
  "neighbors g n =
     remdups (concat (map (\<lambda>(a, b). if a = n then [b] else if b = n then [a] else []) g))"

definition has_edge :: "'v ugraph \<Rightarrow> 'v \<Rightarrow> 'v \<Rightarrow> bool" where
  "has_edge g a b = ((a, b) \<in> set g \<or> (b, a) \<in> set g)"

definition remove_edge :: "'v ugraph \<Rightarrow> 'v \<Rightarrow> 'v \<Rightarrow> 'v ugraph" where
  "remove_edge g a b = filter (\<lambda>e. e \<noteq> (a, b) \<and> e \<noteq> (b, a)) g"

text \<open>Python's \<open>set(a) & set(b)\<close> and \<open>set(a) - set(b)\<close>, on the lists that hold the sets.\<close>

definition set_and :: "'a list \<Rightarrow> 'a list \<Rightarrow> 'a list" where
  "set_and xs ys = filter (\<lambda>x. x \<in> set ys) (remdups xs)"

definition set_minus :: "'a list \<Rightarrow> 'a list \<Rightarrow> 'a list" where
  "set_minus xs ys = filter (\<lambda>x. x \<notin> set ys) (remdups xs)"

section \<open>estimate_skeleton\<close>

text \<open>
  The state of \<open>estimate_skeleton\<close>: the working \<open>graph\<close> and the dictionary
  \<open>seperating_sets\<close>, keyed by \<open>frozenset((node, neighbor))\<close>. The dictionary is kept as
  the list of its assignments, most recent first, so that a lookup is \<open>map_of\<close> and an
  assignment to a key that is already present would be visible. Three fields record the run
  without influencing it: \<open>tested\<close> lists the calls of the independence test (most recent
  first), \<open>rounds\<close> the graph at the start of each pass of the \<open>while\<close> loop (in
  order), and \<open>removals\<close> (most recent first) for each removal of an edge the values of
  \<open>node\<close>, \<open>neighbor\<close> and \<open>lim_neighbors\<close>, the graph just before the removal, and
  the subset recorded.
\<close>

record 'v skel_state =
  graph :: "'v ugraph"
  seperating_sets :: "('v set \<times> 'v list) list"
  tested :: "('v \<times> 'v \<times> 'v list) list"
  rounds :: "'v ugraph list"
  removals :: "('v \<times> 'v \<times> nat \<times> 'v ugraph \<times> 'v list) list"

text \<open>
  The innermost loop (source lines 211 to 216) for one \<open>node\<close> and \<open>neighbor\<close>: the
  candidate subsets are tried in order; the first one whose p-value reaches \<open>p_value\<close> is
  stored, the edge is removed and the loop is left (\<open>break\<close>). The independence test is a
  parameter; an exception it raises leaves the whole estimation.
\<close>

fun search_subsets ::
  "('v \<Rightarrow> 'v \<Rightarrow> 'v list \<Rightarrow> error + pyfloat) \<Rightarrow> rat \<Rightarrow> nat \<Rightarrow> 'v \<Rightarrow> 'v \<Rightarrow> 'v list list \<Rightarrow>
     'v skel_state \<Rightarrow> error + 'v skel_state" where
  "search_subsets test p_value lim_neighbors node neighbor [] st = Inr st"
| "search_subsets test p_value lim_neighbors node neighbor (seperating_set # rest) st =
     (case test node neighbor seperating_set of
        Inl e \<Rightarrow> Inl e
      | Inr v \<Rightarrow>
          let st1 = st\<lparr>tested := (node, neighbor, seperating_set) # tested st\<rparr> in
          if float_ge v p_value
          then Inr (st1\<lparr>seperating_sets := ({node, neighbor}, seperating_set) # seperating_sets st1,
                        removals := (node, neighbor, lim_neighbors, graph st1, seperating_set)
                                    # removals st1,
                        graph := remove_edge (graph st1) node neighbor\<rparr>)
          else search_subsets test p_value lim_neighbors node neighbor rest st1)"

text \<open>
  \<open>for neighbor in graph.neighbors(node)\<close>: the neighbour list is taken once (the last
  list argument). The candidate subsets are the combinations of size \<open>lim_neighbors\<close>
  over \<open>set(graph.neighbors(node)) - set([neighbor])\<close>, computed from the neighbours
  \<open>node\<close> has when the neighbour's turn comes. \<open>combinations\<close> reads the elements of
  that set in the order in which Python iterates the set (its hash order), which the
  source does not fix: the parameter \<open>set_order\<close> is that order, a function from the
  list that holds the set to the list of its elements as the iteration yields them.
\<close>

fun for_neighbors ::
  "('v \<Rightarrow> 'v \<Rightarrow> 'v list \<Rightarrow> error + pyfloat) \<Rightarrow> ('v list \<Rightarrow> 'v list) \<Rightarrow> rat \<Rightarrow> nat \<Rightarrow> 'v \<Rightarrow>
     'v list \<Rightarrow> 'v skel_state \<Rightarrow> error + 'v skel_state" where
  "for_neighbors test set_order p_value lim_neighbors node [] st = Inr st"
| "for_neighbors test set_order p_value lim_neighbors node (neighbor # rest) st =
     (case search_subsets test p_value lim_neighbors node neighbor
             (combinations (set_order (set_minus (neighbors (graph st) node) [neighbor]))
                lim_neighbors) st of
        Inl e \<Rightarrow> Inl e
      | Inr st' \<Rightarrow> for_neighbors test set_order p_value lim_neighbors node rest st')"

text \<open>\<open>for node in nodes\<close>: one pass of the \<open>while\<close> loop's body.\<close>

fun for_nodes ::
  "('v \<Rightarrow> 'v \<Rightarrow> 'v list \<Rightarrow> error + pyfloat) \<Rightarrow> ('v list \<Rightarrow> 'v list) \<Rightarrow> rat \<Rightarrow> nat \<Rightarrow> 'v list \<Rightarrow>
     'v skel_state \<Rightarrow> error + 'v skel_state" where
  "for_nodes test set_order p_value lim_neighbors [] st = Inr st"
| "for_nodes test set_order p_value lim_neighbors (node # rest) st =
     (case for_neighbors test set_order p_value lim_neighbors node (neighbors (graph st) node) st of
        Inl e \<Rightarrow> Inl e
      | Inr st' \<Rightarrow> for_nodes test set_order p_value lim_neighbors rest st')"

text \<open>The loop condition: \<open>all([len(graph.neighbors(node)) < lim_neighbors for node in nodes])\<close>.\<close>

definition all_below :: "'v list \<Rightarrow> nat \<Rightarrow> 'v ugraph \<Rightarrow> bool" where
  "all_below nodes lim_neighbors g = list_all (\<lambda>node. length (neighbors g node) < lim_neighbors) nodes"

lemma length_remove_edge: "length (remove_edge g a b) \<le> length g"
  by (simp add: remove_edge_def)

lemma search_subsets_length:
  "search_subsets test p k node nb cs st = Inr st' \<Longrightarrow> length (graph st') \<le> length (graph st)"
proof (induction cs arbitrary: st)
  case Nil
  then show ?case by simp
next
  case (Cons c cs)
  show ?case
  proof (cases "test node nb c")
    case (Inl e)
    with Cons.prems show ?thesis by simp
  next
    case (Inr v)
    show ?thesis
    proof (cases "float_ge v p")
      case True
      with Inr Cons.prems show ?thesis
        by (auto simp: Let_def length_remove_edge)
    next
      case False
      with Inr Cons.prems
      have "search_subsets test p k node nb cs (st\<lparr>tested := (node, nb, c) # tested st\<rparr>) = Inr st'"
        by (simp add: Let_def)
      from Cons.IH [OF this] show ?thesis by simp
    qed
  qed
qed

lemma for_neighbors_length:
  "for_neighbors test so p k node nbs st = Inr st' \<Longrightarrow> length (graph st') \<le> length (graph st)"
proof (induction nbs arbitrary: st)
  case Nil
  then show ?case by simp
next
  case (Cons nb nbs)
  then obtain st1 where
    s: "search_subsets test p k node nb (combinations (so (set_minus (neighbors (graph st) node) [nb])) k) st = Inr st1"
    and r: "for_neighbors test so p k node nbs st1 = Inr st'"
    by (auto split: sum.splits)
  from search_subsets_length [OF s] Cons.IH [OF r] show ?case by simp
qed

lemma for_nodes_length:
  "for_nodes test so p k ns st = Inr st' \<Longrightarrow> length (graph st') \<le> length (graph st)"
proof (induction ns arbitrary: st)
  case Nil
  then show ?case by simp
next
  case (Cons n ns)
  then obtain st1 where
    s: "for_neighbors test so p k n (neighbors (graph st) n) st = Inr st1"
    and r: "for_nodes test so p k ns st1 = Inr st'"
    by (auto split: sum.splits)
  from for_neighbors_length [OF s] Cons.IH [OF r] show ?case by simp
qed

lemma length_neighbors: "length (neighbors g n) \<le> length g"
proof -
  have "length (concat (map (\<lambda>(a, b). if a = n then [b] else if b = n then [a] else []) g)) \<le> length g"
    by (induction g) auto
  moreover have "length (neighbors g n)
      \<le> length (concat (map (\<lambda>(a, b). if a = n then [b] else if b = n then [a] else []) g))"
    unfolding neighbors_def by (rule length_remdups_leq)
  ultimately show ?thesis by simp
qed

lemma not_all_below_length: "\<not> all_below nodes k g \<Longrightarrow> k \<le> length g"
proof -
  assume "\<not> all_below nodes k g"
  then obtain n where "\<not> length (neighbors g n) < k"
    by (auto simp: all_below_def list_all_iff)
  with length_neighbors [of g n] show ?thesis by simp
qed

text \<open>
  The \<open>while\<close> loop (source lines 206 to 217). It returns the final state together with
  the final value of \<open>lim_neighbors\<close>, which is the number of passes made.
\<close>

function skeleton_loop ::
  "('v \<Rightarrow> 'v \<Rightarrow> 'v list \<Rightarrow> error + pyfloat) \<Rightarrow> ('v list \<Rightarrow> 'v list) \<Rightarrow> rat \<Rightarrow> 'v list \<Rightarrow> nat \<Rightarrow>
     'v skel_state \<Rightarrow> error + ('v skel_state \<times> nat)" where
  "skeleton_loop test set_order p_value nodes lim_neighbors st =
     (if all_below nodes lim_neighbors (graph st) then Inr (st, lim_neighbors)
      else (case for_nodes test set_order p_value lim_neighbors nodes
                   (st\<lparr>rounds := rounds st @ [graph st]\<rparr>) of
              Inl e \<Rightarrow> Inl e
            | Inr st' \<Rightarrow> skeleton_loop test set_order p_value nodes (Suc lim_neighbors) st'))"
  by pat_completeness auto
termination skeleton_loop
proof (relation "measure (\<lambda>(test, so, p, nodes, k, st). Suc (length (graph st)) - k)")
  show "wf (measure (\<lambda>(test, so, p, nodes, k, st). Suc (length (graph (st :: 'a skel_state))) - k))"
    by simp
next
  fix test :: "'a \<Rightarrow> 'a \<Rightarrow> 'a list \<Rightarrow> error + pyfloat" and set_order :: "'a list \<Rightarrow> 'a list"
    and p_value nodes lim_neighbors and st st' :: "'a skel_state"
  assume nb: "\<not> all_below nodes lim_neighbors (graph st)"
    and run: "for_nodes test set_order p_value lim_neighbors nodes
                (st\<lparr>rounds := rounds st @ [graph st]\<rparr>) = Inr st'"
  from not_all_below_length [OF nb] have "lim_neighbors \<le> length (graph st)" .
  moreover from for_nodes_length [OF run] have "length (graph st') \<le> length (graph st)" by simp
  ultimately show "((test, set_order, p_value, nodes, Suc lim_neighbors, st'),
                    (test, set_order, p_value, nodes, lim_neighbors, st))
      \<in> measure (\<lambda>(test, so, p, nodes, k, st). Suc (length (graph st)) - k)"
    by simp
qed

text \<open>
  \<open>estimate_skeleton\<close>: the complete graph over \<open>nodes\<close> (the keys of
  \<open>state_names\<close>), \<open>lim_neighbors = 0\<close>, an empty dictionary; then the loop.
  The iteration order of Python sets is the parameter \<open>set_order\<close>.
  \<open>estimate_skeleton_run\<close> keeps the whole final state, \<open>estimate_skeleton\<close> returns what
  the source returns.
\<close>

definition estimate_skeleton_run ::
  "('v \<Rightarrow> 'v \<Rightarrow> 'v list \<Rightarrow> error + pyfloat) \<Rightarrow> ('v list \<Rightarrow> 'v list) \<Rightarrow> rat \<Rightarrow> 'v list \<Rightarrow>
     error + ('v skel_state \<times> nat)" where
  "estimate_skeleton_run test set_order p_value nodes =
     skeleton_loop test set_order p_value nodes 0
       \<lparr>graph = pairs nodes, seperating_sets = [], tested = [], rounds = [], removals = []\<rparr>"

definition estimate_skeleton ::
  "('v \<Rightarrow> 'v \<Rightarrow> 'v list \<Rightarrow> error + pyfloat) \<Rightarrow> ('v list \<Rightarrow> 'v list) \<Rightarrow> rat \<Rightarrow> 'v list \<Rightarrow>
     error + ('v ugraph \<times> ('v set \<times> 'v list) list)" where
  "estimate_skeleton test set_order p_value nodes =
     (case estimate_skeleton_run test set_order p_value nodes of
        Inl e \<Rightarrow> Inl e
      | Inr (st, k) \<Rightarrow> Inr (graph st, seperating_sets st))"

section \<open>estimate\<close>

text \<open>
  The PDAG is a directed graph, held as the list of its directed edges (each once).
  \<open>to_directed\<close> gives both directions of every undirected edge;
  \<open>remove_edges_from\<close> removes the listed edges that are present and ignores the others.
\<close>

type_synonym 'v digraph = "('v \<times> 'v) list"

definition to_directed :: "'v ugraph \<Rightarrow> 'v digraph" where
  "to_directed g = remdups (concat (map (\<lambda>(a, b). [(a, b), (b, a)]) g))"

definition remove_edges_from :: "'v digraph \<Rightarrow> ('v \<times> 'v) list \<Rightarrow> 'v digraph" where
  "remove_edges_from pdag es = filter (\<lambda>e. e \<notin> set es) pdag"

definition successors :: "'v digraph \<Rightarrow> 'v \<Rightarrow> 'v list" where
  "successors pdag x = remdups (map snd (filter (\<lambda>e. fst e = x) pdag))"

definition predecessors :: "'v digraph \<Rightarrow> 'v \<Rightarrow> 'v list" where
  "predecessors pdag x = remdups (map fst (filter (\<lambda>e. snd e = x) pdag))"

definition number_of_edges :: "'v digraph \<Rightarrow> nat" where
  "number_of_edges pdag = length (remdups pdag)"

text \<open>
  Step 1 of \<open>estimate\<close> (source lines 99 to 103). The inner loop runs over
  \<open>set(skel.neighbors(X)) & set(skel.neighbors(X))\<close>, as the source has it; the lookup
  \<open>seperating_sets[frozenset((X, Y))]\<close> raises \<open>KeyError\<close> on a missing key. The edges
  that the body removes for one \<open>Z\<close> do not depend on what it did for another, so the
  order in which the set is iterated has no effect on the result.
\<close>

fun orient_colliders ::
  "('v set \<times> 'v list) list \<Rightarrow> 'v \<Rightarrow> 'v \<Rightarrow> 'v list \<Rightarrow> 'v digraph \<Rightarrow> error + 'v digraph" where
  "orient_colliders seps X Y [] pdag = Inr pdag"
| "orient_colliders seps X Y (Z # Zs) pdag =
     (case map_of seps {X, Y} of
        None \<Rightarrow> Inl KeyError
      | Some s \<Rightarrow>
          orient_colliders seps X Y Zs
            (if Z \<notin> set s then remove_edges_from pdag [(Z, X), (Z, Y)] else pdag))"

text \<open>
  \<open>node_pairs\<close> is an iterator: a \<open>for\<close> loop over it takes its items one by one and
  leaves it exhausted. Each loop over \<open>node_pairs\<close> therefore takes the iterator's
  remaining items and returns what is left of them together with the graph.
\<close>

fun collider_loop ::
  "'v ugraph \<Rightarrow> ('v set \<times> 'v list) list \<Rightarrow> ('v \<times> 'v) list \<Rightarrow> 'v digraph \<Rightarrow>
     error + (('v \<times> 'v) list \<times> 'v digraph)" where
  "collider_loop skel seps [] pdag = Inr ([], pdag)"
| "collider_loop skel seps ((X, Y) # node_pairs) pdag =
     (if \<not> has_edge skel X Y
      then (case orient_colliders seps X Y (set_and (neighbors skel X) (neighbors skel X)) pdag of
              Inl e \<Rightarrow> Inl e
            | Inr pdag' \<Rightarrow> collider_loop skel seps node_pairs pdag')
      else collider_loop skel seps node_pairs pdag)"

text \<open>
  The three propagation rules of the \<open>while\<close> loop. The method \<open>pdag.remove\<close> and the
  function \<open>nx.all_simple_paths\<close> are not defined in the module (it does not import
  \<open>nx\<close>); they are parameters \<open>remove\<close> and \<open>all_simple_paths\<close>, each of
  which may raise.

  Rule 1 (source comment 2): for each \<open>Z\<close> with \<open>X \<rightarrow> Z\<close> and \<open>Z - Y\<close>, call
  \<open>pdag.remove(Y, Z)\<close>. The set of \<open>Z\<close> is computed before the inner loop starts.
\<close>

fun rule1_Zs ::
  "('v \<Rightarrow> 'v \<Rightarrow> 'v digraph \<Rightarrow> error + 'v digraph) \<Rightarrow> 'v \<Rightarrow> 'v list \<Rightarrow> 'v digraph \<Rightarrow> error + 'v digraph" where
  "rule1_Zs remove Y [] pdag = Inr pdag"
| "rule1_Zs remove Y (Z # Zs) pdag =
     (case remove Y Z pdag of Inl e \<Rightarrow> Inl e | Inr pdag' \<Rightarrow> rule1_Zs remove Y Zs pdag')"

fun rule1_loop ::
  "('v \<Rightarrow> 'v \<Rightarrow> 'v digraph \<Rightarrow> error + 'v digraph) \<Rightarrow> ('v \<times> 'v) list \<Rightarrow> 'v digraph \<Rightarrow>
     error + (('v \<times> 'v) list \<times> 'v digraph)" where
  "rule1_loop remove [] pdag = Inr ([], pdag)"
| "rule1_loop remove ((X, Y) # node_pairs) pdag =
     (case rule1_Zs remove Y
             (set_and (set_minus (successors pdag X) (predecessors pdag X))
                      (set_and (successors pdag Y) (predecessors pdag Y))) pdag of
        Inl e \<Rightarrow> Inl e
      | Inr pdag' \<Rightarrow> rule1_loop remove node_pairs pdag')"

text \<open>
  Rule 2 (source comment 3): the first path from \<open>X\<close> to \<open>Y\<close> none of whose steps has
  its reverse edge in the graph makes the loop call \<open>pdag.remove(Y, X)\<close> and leave the
  paths.
\<close>

fun rule2_paths ::
  "('v \<Rightarrow> 'v \<Rightarrow> 'v digraph \<Rightarrow> error + 'v digraph) \<Rightarrow> 'v \<Rightarrow> 'v \<Rightarrow> ('v \<times> 'v) list list \<Rightarrow>
     'v digraph \<Rightarrow> error + 'v digraph" where
  "rule2_paths remove X Y [] pdag = Inr pdag"
| "rule2_paths remove X Y (path # paths) pdag =
     (if list_all (\<lambda>(src, dst). (dst, src) \<notin> set pdag) path then remove Y X pdag
      else rule2_paths remove X Y paths pdag)"

fun rule2_loop ::
  "('v \<Rightarrow> 'v \<Rightarrow> 'v digraph \<Rightarrow> error + 'v digraph) \<Rightarrow>
   ('v digraph \<Rightarrow> 'v \<Rightarrow> 'v \<Rightarrow> error + ('v \<times> 'v) list list) \<Rightarrow> ('v \<times> 'v) list \<Rightarrow> 'v digraph \<Rightarrow>
     error + (('v \<times> 'v) list \<times> 'v digraph)" where
  "rule2_loop remove all_simple_paths [] pdag = Inr ([], pdag)"
| "rule2_loop remove all_simple_paths ((X, Y) # node_pairs) pdag =
     (case all_simple_paths pdag X Y of
        Inl e \<Rightarrow> Inl e
      | Inr paths \<Rightarrow>
          (case rule2_paths remove X Y paths pdag of
             Inl e \<Rightarrow> Inl e
           | Inr pdag' \<Rightarrow> rule2_loop remove all_simple_paths node_pairs pdag'))"

text \<open>
  Rule 3 (source comment 4): for each \<open>Z\<close> with \<open>X - Z - Y\<close> and each \<open>W\<close> with
  \<open>X \<rightarrow> W\<close>, \<open>Y \<rightarrow> W\<close> and \<open>Z - W\<close>, call \<open>pdag.remove(W, Z)\<close>. The set of \<open>W\<close> is
  computed when the turn of \<open>Z\<close> comes.
\<close>

fun rule3_Ws ::
  "('v \<Rightarrow> 'v \<Rightarrow> 'v digraph \<Rightarrow> error + 'v digraph) \<Rightarrow> 'v \<Rightarrow> 'v list \<Rightarrow> 'v digraph \<Rightarrow> error + 'v digraph" where
  "rule3_Ws remove Z [] pdag = Inr pdag"
| "rule3_Ws remove Z (W # Ws) pdag =
     (case remove W Z pdag of Inl e \<Rightarrow> Inl e | Inr pdag' \<Rightarrow> rule3_Ws remove Z Ws pdag')"

fun rule3_Zs ::
  "('v \<Rightarrow> 'v \<Rightarrow> 'v digraph \<Rightarrow> error + 'v digraph) \<Rightarrow> 'v \<Rightarrow> 'v \<Rightarrow> 'v list \<Rightarrow> 'v digraph \<Rightarrow> error + 'v digraph" where
  "rule3_Zs remove X Y [] pdag = Inr pdag"
| "rule3_Zs remove X Y (Z # Zs) pdag =
     (case rule3_Ws remove Z
             (set_and (set_and (set_minus (successors pdag X) (predecessors pdag X))
                               (set_minus (successors pdag Y) (predecessors pdag Y)))
                      (set_and (successors pdag Z) (predecessors pdag Z))) pdag of
        Inl e \<Rightarrow> Inl e
      | Inr pdag' \<Rightarrow> rule3_Zs remove X Y Zs pdag')"

fun rule3_loop ::
  "('v \<Rightarrow> 'v \<Rightarrow> 'v digraph \<Rightarrow> error + 'v digraph) \<Rightarrow> ('v \<times> 'v) list \<Rightarrow> 'v digraph \<Rightarrow>
     error + (('v \<times> 'v) list \<times> 'v digraph)" where
  "rule3_loop remove [] pdag = Inr ([], pdag)"
| "rule3_loop remove ((X, Y) # node_pairs) pdag =
     (case rule3_Zs remove X Y
             (set_and (set_and (successors pdag X) (predecessors pdag X))
                      (set_and (successors pdag Y) (predecessors pdag Y))) pdag of
        Inl e \<Rightarrow> Inl e
      | Inr pdag' \<Rightarrow> rule3_loop remove node_pairs pdag')"

text \<open>
  The \<open>while progress\<close> loop (source lines 105 to 135): one pass applies the three rule
  loops to what is left of \<open>node_pairs\<close>; another pass follows when the number of edges
  went down. The last argument counts the passes and is returned with the graph.
\<close>

function orient_loop ::
  "('v \<Rightarrow> 'v \<Rightarrow> 'v digraph \<Rightarrow> error + 'v digraph) \<Rightarrow>
   ('v digraph \<Rightarrow> 'v \<Rightarrow> 'v \<Rightarrow> error + ('v \<times> 'v) list list) \<Rightarrow> ('v \<times> 'v) list \<Rightarrow> 'v digraph \<Rightarrow> nat \<Rightarrow>
     error + ('v digraph \<times> nat)" where
  "orient_loop remove all_simple_paths node_pairs pdag passes =
     (case rule1_loop remove node_pairs pdag of
        Inl e \<Rightarrow> Inl e
      | Inr (node_pairs1, pdag1) \<Rightarrow>
     (case rule2_loop remove all_simple_paths node_pairs1 pdag1 of
        Inl e \<Rightarrow> Inl e
      | Inr (node_pairs2, pdag2) \<Rightarrow>
     (case rule3_loop remove node_pairs2 pdag2 of
        Inl e \<Rightarrow> Inl e
      | Inr (node_pairs3, pdag3) \<Rightarrow>
          if number_of_edges pdag3 < number_of_edges pdag
          then orient_loop remove all_simple_paths node_pairs3 pdag3 (Suc passes)
          else Inr (pdag3, Suc passes))))"
  by pat_completeness auto
termination orient_loop
  by (relation "measure (\<lambda>(remove, asp, node_pairs, pdag, passes). number_of_edges pdag)") auto

text \<open>
  \<open>estimate\<close>: the skeleton, its directed copy, the iterator \<open>node_pairs\<close> over the
  pairs of nodes, step 1, and the rule loop on what step 1 left of the iterator.
  \<open>estimate_run\<close> also returns the number of passes of the rule loop.
\<close>

definition estimate_run ::
  "('v \<Rightarrow> 'v \<Rightarrow> 'v list \<Rightarrow> error + pyfloat) \<Rightarrow> ('v list \<Rightarrow> 'v list) \<Rightarrow>
   ('v \<Rightarrow> 'v \<Rightarrow> 'v digraph \<Rightarrow> error + 'v digraph) \<Rightarrow>
   ('v digraph \<Rightarrow> 'v \<Rightarrow> 'v \<Rightarrow> error + ('v \<times> 'v) list list) \<Rightarrow> rat \<Rightarrow> 'v list \<Rightarrow>
     error + ('v digraph \<times> nat)" where
  "estimate_run test set_order remove all_simple_paths p_value nodes =
     (case estimate_skeleton test set_order p_value nodes of
        Inl e \<Rightarrow> Inl e
      | Inr (skel, seps) \<Rightarrow>
          (case collider_loop skel seps (pairs nodes) (to_directed skel) of
             Inl e \<Rightarrow> Inl e
           | Inr (node_pairs, pdag) \<Rightarrow> orient_loop remove all_simple_paths node_pairs pdag 0))"

definition estimate ::
  "('v \<Rightarrow> 'v \<Rightarrow> 'v list \<Rightarrow> error + pyfloat) \<Rightarrow> ('v list \<Rightarrow> 'v list) \<Rightarrow>
   ('v \<Rightarrow> 'v \<Rightarrow> 'v digraph \<Rightarrow> error + 'v digraph) \<Rightarrow>
   ('v digraph \<Rightarrow> 'v \<Rightarrow> 'v \<Rightarrow> error + ('v \<times> 'v) list list) \<Rightarrow> rat \<Rightarrow> 'v list \<Rightarrow> error + 'v digraph" where
  "estimate test set_order remove all_simple_paths p_value nodes =
     (case estimate_run test set_order remove all_simple_paths p_value nodes of
        Inl e \<Rightarrow> Inl e
      | Inr (pdag, passes) \<Rightarrow> Inr pdag)"

section \<open>test_conditional_independence\<close>

text \<open>
  The data set is a list of rows; a row gives each variable a value or none (a missing
  cell). \<open>state_names\<close> gives each variable its list of states. The argument \<open>Zs\<close>
  is either a collection (frozenset, list, set or tuple), which the source turns into a
  list, or any other object, which it wraps into a one-element list.
\<close>

datatype 'v zs_arg = Collection "'v list" | Single 'v

fun normalize_Zs :: "'v zs_arg \<Rightarrow> 'v list" where
  "normalize_Zs (Collection zs) = zs"
| "normalize_Zs (Single z) = [z]"

text \<open>
  The warning of source lines 288 and 289 with the values its text is formatted from:
  \<open>X\<close>, \<open>Y\<close>, \<open>Zs\<close>, \<open>num_params\<close> and \<open>len(self.data)\<close>.
\<close>

datatype 'v warning = Insufficient_data 'v 'v "'v list" int nat

text \<open>
  \<open>scipy.stats.chisquare\<close> is not part of the sources and computes in floating point.
  The value \<open>Chisquare observed expected\<close> stands for the p-value of the call
  \<open>chisquare(observed, expected)\<close>.
\<close>

datatype chisquare_result = Chisquare "int list" "pyfloat list"

text \<open>
  \<open>num_params\<close> (source lines 284 to 286). The two first factors are Python integers.
  \<open>np.prod\<close> of a non-empty list of integers is a signed 64-bit integer, and so is
  its product with a Python integer: both multiplications wrap around. \<open>np.prod\<close> of
  the empty list is the float 1.0, which leaves the value of the two first factors (list
  lengths are far below the 53 bits that a float holds exactly).
\<close>

definition num_params :: "('v \<Rightarrow> 's list) \<Rightarrow> 'v \<Rightarrow> 'v \<Rightarrow> 'v list \<Rightarrow> int" where
  "num_params state_names X Y Zs =
     (let a = (int (length (state_names X)) - 1) * (int (length (state_names Y)) - 1) in
      if Zs = [] then a
      else sint (word_of_int (a * prod_list (map (\<lambda>Z. int (length (state_names Z))) Zs)) :: 64 word))"

text \<open>
  The frequency table \<open>XYZ_state_counts\<close> after \<open>reindex\<close> and \<open>fillna(0)\<close>: one row
  for each state of \<open>X\<close>, one column for each element of the product of the state lists
  of \<open>Y\<close> and of the \<open>Zs\<close> (a column is the list of a state of \<open>Y\<close> followed by one
  state for each of the \<open>Zs\<close>). An entry counts the rows of the data whose cells for
  \<open>X\<close>, \<open>Y\<close> and the \<open>Zs\<close> are all present and equal to the states of the entry.
\<close>

definition row_matches :: "('v \<Rightarrow> 's option) \<Rightarrow> 'v list \<Rightarrow> 's list \<Rightarrow> bool" where
  "row_matches row vars vals = list_all2 (\<lambda>v s. row v = Some s) vars vals"

definition XYZ_state_counts ::
  "('v \<Rightarrow> 's option) list \<Rightarrow> 'v \<Rightarrow> 'v \<Rightarrow> 'v list \<Rightarrow> 's \<Rightarrow> 's list \<Rightarrow> int" where
  "XYZ_state_counts data X Y Zs x col =
     int (length (filter (\<lambda>row. row X = Some x \<and> row_matches row (Y # Zs) col) data))"

definition column_index :: "('v \<Rightarrow> 's list) \<Rightarrow> 'v \<Rightarrow> 'v list \<Rightarrow> 's list list" where
  "column_index state_names Y Zs = product_lists (map state_names (Y # Zs))"

text \<open>The marginal tables: \<open>Y\<close> summed out, \<open>X\<close> summed out, both summed out.\<close>

definition XZ_state_counts ::
  "('v \<Rightarrow> 's option) list \<Rightarrow> ('v \<Rightarrow> 's list) \<Rightarrow> 'v \<Rightarrow> 'v \<Rightarrow> 'v list \<Rightarrow> 's \<Rightarrow> 's list \<Rightarrow> int" where
  "XZ_state_counts data state_names X Y Zs x zs =
     sum_list (map (\<lambda>y. XYZ_state_counts data X Y Zs x (y # zs)) (state_names Y))"

definition YZ_state_counts ::
  "('v \<Rightarrow> 's option) list \<Rightarrow> ('v \<Rightarrow> 's list) \<Rightarrow> 'v \<Rightarrow> 'v \<Rightarrow> 'v list \<Rightarrow> 's \<Rightarrow> 's list \<Rightarrow> int" where
  "YZ_state_counts data state_names X Y Zs y zs =
     sum_list (map (\<lambda>x. XYZ_state_counts data X Y Zs x (y # zs)) (state_names X))"

definition Z_state_counts ::
  "('v \<Rightarrow> 's option) list \<Rightarrow> ('v \<Rightarrow> 's list) \<Rightarrow> 'v \<Rightarrow> 'v \<Rightarrow> 'v list \<Rightarrow> 's list \<Rightarrow> int" where
  "Z_state_counts data state_names X Y Zs zs =
     sum_list (map (\<lambda>y. YZ_state_counts data state_names X Y Zs y zs) (state_names Y))"

text \<open>
  \<open>XYZ_expected\<close> (source lines 311 to 322): the product of the two marginal counts
  divided by the count of the conditioning states, in floating point.
\<close>

definition XYZ_expected ::
  "('v \<Rightarrow> 's option) list \<Rightarrow> ('v \<Rightarrow> 's list) \<Rightarrow> 'v \<Rightarrow> 'v \<Rightarrow> 'v list \<Rightarrow> 's \<Rightarrow> 's list \<Rightarrow> pyfloat" where
  "XYZ_expected data state_names X Y Zs x col =
     float_div (XZ_state_counts data state_names X Y Zs x (tl col)
                  * YZ_state_counts data state_names X Y Zs (hd col) (tl col))
               (Z_state_counts data state_names X Y Zs (tl col))"

text \<open>
  The flattened tables, zipped (row by row), and the pairs that the filter
  \<open>if not e == 0\<close> of source line 328 keeps.
\<close>

definition cells ::
  "('v \<Rightarrow> 's option) list \<Rightarrow> ('v \<Rightarrow> 's list) \<Rightarrow> 'v \<Rightarrow> 'v \<Rightarrow> 'v list \<Rightarrow> (int \<times> pyfloat) list" where
  "cells data state_names X Y Zs =
     concat (map (\<lambda>x. map (\<lambda>col. (XYZ_state_counts data X Y Zs x col,
                                    XYZ_expected data state_names X Y Zs x col))
                          (column_index state_names Y Zs))
                 (state_names X))"

definition retained ::
  "('v \<Rightarrow> 's option) list \<Rightarrow> ('v \<Rightarrow> 's list) \<Rightarrow> 'v \<Rightarrow> 'v \<Rightarrow> 'v list \<Rightarrow> (int \<times> pyfloat) list" where
  "retained data state_names X Y Zs =
     filter (\<lambda>(ob, e). \<not> float_is_zero e) (cells data state_names X Y Zs)"

text \<open>
  \<open>test_conditional_independence\<close>: the warnings it emits and its outcome. The sample
  size is checked first. The columns of the frequency table have one level for \<open>Y\<close> and
  one for each of the \<open>Zs\<close>, named after the variables; when a name occurs twice among
  these levels (\<open>Zs\<close> contains \<open>Y\<close> or a variable twice), pandas raises
  \<open>ValueError\<close> in the marginalisation of source lines 304 and 305. Unpacking \<open>zip\<close>
  of no pairs into \<open>observed, expected\<close> raises \<open>ValueError\<close> as well; otherwise the
  p-value of \<open>chisquare(observed, expected)\<close> is returned.
\<close>

definition test_conditional_independence ::
  "('v \<Rightarrow> 's option) list \<Rightarrow> ('v \<Rightarrow> 's list) \<Rightarrow> 'v \<Rightarrow> 'v \<Rightarrow> 'v zs_arg \<Rightarrow>
     'v warning list \<times> (error + chisquare_result)" where
  "test_conditional_independence data state_names X Y Zs_arg =
     (let Zs = normalize_Zs Zs_arg;
          n = num_params state_names X Y Zs;
          warnings = (if int (length data) < n then [Insufficient_data X Y Zs n (length data)] else []);
          kept = retained data state_names X Y Zs
      in (warnings,
          if \<not> distinct (Y # Zs) then Inl ValueError
          else if kept = [] then Inl ValueError
          else Inr (Chisquare (map fst kept) (map snd kept))))"

text \<open>
  The test as \<open>estimate_skeleton\<close> calls it: on a tuple of variables, comparing the
  p-value that \<open>chisquare\<close> computes. The function \<open>pvalue_of\<close> gives that p-value.
\<close>

definition skeleton_test ::
  "(chisquare_result \<Rightarrow> pyfloat) \<Rightarrow> ('v \<Rightarrow> 's option) list \<Rightarrow> ('v \<Rightarrow> 's list) \<Rightarrow>
     'v \<Rightarrow> 'v \<Rightarrow> 'v list \<Rightarrow> error + pyfloat" where
  "skeleton_test pvalue_of data state_names node neighbor seperating_set =
     (case snd (test_conditional_independence data state_names node neighbor (Collection seperating_set)) of
        Inl e \<Rightarrow> Inl e
      | Inr c \<Rightarrow> Inr (pvalue_of c))"

section \<open>Notions and inputs used in the statements\<close>

text \<open>
  An unshielded triple \<open>X - Z - Y\<close> of the skeleton: \<open>X\<close> and \<open>Y\<close> are not adjacent and
  \<open>Z\<close> is adjacent to both.
\<close>

definition unshielded_triple :: "'v ugraph \<Rightarrow> 'v \<Rightarrow> 'v \<Rightarrow> 'v \<Rightarrow> bool" where
  "unshielded_triple skel X Z Y =
     (X \<noteq> Y \<and> \<not> has_edge skel X Y \<and> has_edge skel X Z \<and> has_edge skel Y Z)"

text \<open>
  In a PDAG an edge is bidirected when both directions are present; a path is directed
  when each of its steps is an edge whose reverse is absent.
\<close>

definition bidirected :: "'v digraph \<Rightarrow> 'v \<Rightarrow> 'v \<Rightarrow> bool" where
  "bidirected pdag x y = ((x, y) \<in> set pdag \<and> (y, x) \<in> set pdag)"

fun is_directed_path :: "'v digraph \<Rightarrow> 'v list \<Rightarrow> bool" where
  "is_directed_path pdag (x # y # rest) =
     ((x, y) \<in> set pdag \<and> (y, x) \<notin> set pdag \<and> is_directed_path pdag (y # rest))"
| "is_directed_path pdag path = True"

text \<open>
  Two instances for the parameters of the rule loops. As the source stands, the name
  \<open>nx\<close> is unbound, so evaluating \<open>nx.all_simple_paths\<close> raises \<open>NameError\<close>.
  \<open>remove_directed\<close> reads \<open>pdag.remove(a, b)\<close> as the removal of the directed edge
  from \<open>a\<close> to \<open>b\<close>.
\<close>

definition unbound_all_simple_paths :: "'v digraph \<Rightarrow> 'v \<Rightarrow> 'v \<Rightarrow> error + ('v \<times> 'v) list list" where
  "unbound_all_simple_paths pdag X Y = Inl NameError"

definition remove_directed :: "'v \<Rightarrow> 'v \<Rightarrow> 'v digraph \<Rightarrow> error + 'v digraph" where
  "remove_directed a b pdag = Inr (remove_edges_from pdag [(a, b)])"

text \<open>
  Test outcomes over four variables \<open>0, 1, 2, 3\<close>: \<open>0\<close> and \<open>1\<close> are dependent given
  anything, so are \<open>2\<close> and \<open>3\<close>, and every other pair is independent (p-value 1).
\<close>

definition two_pairs_test :: "nat \<Rightarrow> nat \<Rightarrow> nat list \<Rightarrow> error + pyfloat" where
  "two_pairs_test u v S = (if {u, v} = {0, 1} \<or> {u, v} = {2, 3} then Inr (Num 0) else Inr (Num 1))"

text \<open>
  Test outcomes over five variables that are faithful to the DAG
  \<open>0 \<rightarrow> 3 \<leftarrow> 2\<close>, \<open>3 \<rightarrow> 4 \<leftarrow> 1\<close>, \<open>2 \<rightarrow> 4\<close>, \<open>1 \<rightarrow> 2\<close>: the independencies found are
  \<open>0 \<bottom> 2\<close>, \<open>0 \<bottom> 1\<close>, \<open>1 \<bottom> 3 | 2\<close> and \<open>0 \<bottom> 4 | 2, 3\<close>.
\<close>

definition faithful_test :: "nat \<Rightarrow> nat \<Rightarrow> nat list \<Rightarrow> error + pyfloat" where
  "faithful_test u v S =
     (if ({u, v}, set S) \<in> {({0, 2}, {}), ({0, 1}, {}), ({1, 3}, {2}), ({0, 4}, {2, 3})}
      then Inr (Num 1) else Inr (Num 0))"

text \<open>
  Data sets over the variables \<open>0\<close> (used as \<open>X\<close>), \<open>1\<close> (\<open>Y\<close>), \<open>2\<close> and \<open>3\<close>
  (conditioning variables). A row without missing cells gives the four values in this
  order.
\<close>

definition complete_row :: "nat \<Rightarrow> nat \<Rightarrow> nat \<Rightarrow> nat \<Rightarrow> nat \<Rightarrow> nat option" where
  "complete_row x y z1 z2 v =
     (if v = 0 then Some x else if v = 1 then Some y else if v = 2 then Some z1 else Some z2)"


definition single_state :: "nat \<Rightarrow> nat list" where
  "single_state v = [0]"

definition binary_states :: "nat \<Rightarrow> nat list" where
  "binary_states v = [0, 1]"



text \<open>Four rows in which the variables \<open>2\<close> and \<open>3\<close> always agree; every variable takes both of its states.\<close>

definition equal_Zs_data :: "(nat \<Rightarrow> nat option) list" where
  "equal_Zs_data =
     [complete_row 0 0 0 0, complete_row 1 1 0 0, complete_row 0 1 1 1, complete_row 1 0 1 1]"

text \<open>Three rows in which every variable is constant.\<close>

definition constant_data :: "(nat \<Rightarrow> nat option) list" where
  "constant_data = [complete_row 0 0 0 0, complete_row 0 0 0 0, complete_row 0 0 0 0]"




text \<open>
  Notions for the statements about \<open>estimate_skeleton\<close>: the unordered pairs that the
  edges of a graph connect, the unordered pair that a logged test is about, and whether a
  logged test passed (returned a p-value that reaches \<open>p_value\<close>).
\<close>

definition edge_pairs :: "'v ugraph \<Rightarrow> 'v set set" where
  "edge_pairs g = (\<lambda>(a, b). {a, b}) ` set g"

definition test_pair :: "'v \<times> 'v \<times> 'v list \<Rightarrow> 'v set" where
  "test_pair t = {fst t, fst (snd t)}"

definition passes :: "('v \<Rightarrow> 'v \<Rightarrow> 'v list \<Rightarrow> error + pyfloat) \<Rightarrow> rat \<Rightarrow> 'v \<times> 'v \<times> 'v list \<Rightarrow> bool" where
  "passes test p_value t =
     (case test (fst t) (fst (snd t)) (snd (snd t)) of Inl e \<Rightarrow> False | Inr v \<Rightarrow> float_ge v p_value)"

text \<open>
  The invariant of the skeleton search, relative to the edges \<open>E0\<close> of the initial graph:
  no key of \<open>seperating_sets\<close> was assigned twice; the keys are the pairs of \<open>E0\<close> that
  are no longer edges; every test that passed is about a recorded pair; no test is about
  the pair of an older test that passed; every recorded subset passed its test.
\<close>

definition skel_inv ::
  "('v \<Rightarrow> 'v \<Rightarrow> 'v list \<Rightarrow> error + pyfloat) \<Rightarrow> rat \<Rightarrow> 'v set set \<Rightarrow> 'v skel_state \<Rightarrow> bool" where
  "skel_inv test p E0 st \<longleftrightarrow>
     distinct (map fst (seperating_sets st))
   \<and> set (map fst (seperating_sets st)) = E0 - edge_pairs (graph st)
   \<and> edge_pairs (graph st) \<subseteq> E0
   \<and> (\<forall>t\<in>set (tested st). passes test p t \<longrightarrow> test_pair t \<in> set (map fst (seperating_sets st)))
   \<and> sorted_wrt (\<lambda>newer older. passes test p older \<longrightarrow> test_pair newer \<noteq> test_pair older) (tested st)
   \<and> (\<forall>(K, s)\<in>set (seperating_sets st). \<exists>node nb. K = {node, nb} \<and> passes test p (node, nb, s))"

text \<open>
  Test outcomes over three variables \<open>0, 1, 2\<close>: \<open>0\<close> and \<open>2\<close> are independent given
  \<open>1\<close> and dependent otherwise, every other pair is dependent. \<open>chain_final_state\<close> is
  the state in which \<open>estimate_skeleton\<close> ends on them.
\<close>

definition chain_test :: "nat \<Rightarrow> nat \<Rightarrow> nat list \<Rightarrow> error + pyfloat" where
  "chain_test u v S = (if {u, v} = {0, 2} \<and> S = [1] then Inr (Num 1) else Inr (Num 0))"

definition chain_final_state :: "nat skel_state" where
  "chain_final_state =
     \<lparr>graph = [(0, 1), (1, 2)], seperating_sets = [({0, 2}, [1])],
      tested = [(1, 2, [0]), (1, 0, [2]), (0, 2, [1]), (0, 1, [2]), (2, 1, []),
                (2, 0, []), (1, 2, []), (1, 0, []), (0, 2, []), (0, 1, [])],
      rounds = [[(0, 1), (0, 2), (1, 2)], [(0, 1), (0, 2), (1, 2)], [(0, 1), (1, 2)]],
      removals = [(0, 2, 1, [(0, 1), (0, 2), (1, 2)], [1])]\<rparr>"

text \<open>
  The invariant of the record of removals: the dictionary holds, in the same order, the
  subsets recorded at the removals; and for each removal the edge was present in the graph
  before it, that graph is a subset of the graph at the start of pass \<open>lim_neighbors\<close>,
  and the recorded subset is the first one that passes the test among the combinations of
  size \<open>lim_neighbors\<close> over the other neighbours of \<open>node\<close> in that graph, read in
  \<open>set_order\<close>.
\<close>

definition removal_inv ::
  "('v \<Rightarrow> 'v \<Rightarrow> 'v list \<Rightarrow> error + pyfloat) \<Rightarrow> ('v list \<Rightarrow> 'v list) \<Rightarrow> rat \<Rightarrow> 'v skel_state \<Rightarrow> bool" where
  "removal_inv test set_order p st \<longleftrightarrow>
     seperating_sets st = map (\<lambda>(node, nb, k, g, s). ({node, nb}, s)) (removals st)
   \<and> (\<forall>(node, nb, k, g, s)\<in>set (removals st).
         has_edge g node nb \<and> k < length (rounds st) \<and> set g \<subseteq> set (rounds st ! k)
       \<and> find (\<lambda>c. passes test p (node, nb, c))
            (combinations (set_order (set_minus (neighbors g node) [nb])) k) = Some s)"

text \<open>
  Test outcomes over four variables: \<open>0\<close> and \<open>1\<close> are independent given \<open>2\<close> and
  given \<open>3\<close>, \<open>2\<close> and \<open>3\<close> are independent given \<open>1\<close>, and nothing else is
  independent. \<open>two_sets_final_state\<close> is the state in which \<open>estimate_skeleton\<close> ends
  on them for the variables in the order \<open>0, 1, 3, 2\<close>.
\<close>

definition two_sets_test :: "nat \<Rightarrow> nat \<Rightarrow> nat list \<Rightarrow> error + pyfloat" where
  "two_sets_test u v S =
     (if ({u, v} = {0, 1} \<and> (S = [2] \<or> S = [3])) \<or> ({u, v} = {2, 3} \<and> S = [1])
      then Inr (Num 1) else Inr (Num 0))"

definition two_sets_final_state :: "nat skel_state" where
  "two_sets_final_state =
     \<lparr>graph = [(0, 3), (0, 2), (1, 3), (1, 2)],
      seperating_sets = [({3, 2}, [1]), ({0, 1}, [2])],
      tested =
        [(2, 1, [0]), (2, 0, [1]), (3, 2, [1]), (3, 2, [0]), (3, 1, [2]),
         (3, 1, [0]), (3, 0, [2]), (3, 0, [1]), (1, 2, [3]), (1, 3, [2]),
         (0, 2, [3]), (0, 3, [2]), (0, 1, [2]), (2, 3, []), (2, 1, []),
         (2, 0, []), (3, 2, []), (3, 1, []), (3, 0, []), (1, 2, []),
         (1, 3, []), (1, 0, []), (0, 2, []), (0, 3, []), (0, 1, [])],
      rounds =
        [[(0, 1), (0, 3), (0, 2), (1, 3), (1, 2), (3, 2)],
         [(0, 1), (0, 3), (0, 2), (1, 3), (1, 2), (3, 2)],
         [(0, 3), (0, 2), (1, 3), (1, 2)]],
      removals =
        [(3, 2, 1, [(0, 3), (0, 2), (1, 3), (1, 2), (3, 2)], [1]),
         (0, 1, 1, [(0, 1), (0, 3), (0, 2), (1, 3), (1, 2), (3, 2)], [2])]\<rparr>"

text \<open>Small states of the skeleton search: one edge, and that edge removed.\<close>

definition one_edge_state :: "nat skel_state" where
  "one_edge_state =
     \<lparr>graph = [(0, 2)], seperating_sets = [], tested = [], rounds = [], removals = []\<rparr>"

definition no_edge_state :: "nat skel_state" where
  "no_edge_state =
     \<lparr>graph = [], seperating_sets = [({0, 2}, [])], tested = [(0, 2, [])], rounds = [],
      removals = [(0, 2, 0, [(0, 2)], [])]\<rparr>"

text \<open>
  The order in which CPython iterates a set of small non-negative integers: ascending.
\<close>

definition ascending :: "nat list \<Rightarrow> nat list" where
  "ascending xs = sort xs"

section \<open>Evaluation\<close>

declare skeleton_loop.simps [simp del]
declare orient_loop.simps [simp del]

lemmas eval_simps = estimate_def estimate_run_def estimate_skeleton_def estimate_skeleton_run_def
  skeleton_loop.simps orient_loop.simps all_below_def neighbors_def remove_edge_def has_edge_def
  to_directed_def remove_edges_from_def set_and_def set_minus_def ascending_def doubleton_eq_iff
  Let_def

section \<open>Pairs and combinations\<close>

lemma combinations_one: "combinations xs (Suc 0) = map (\<lambda>x. [x]) xs"
  by (induction xs) simp_all

lemma combinations_two_pairs: "combinations xs 2 = map (\<lambda>(a, b). [a, b]) (pairs xs)"
proof -
  have "combinations xs (Suc (Suc 0)) = map (\<lambda>(a, b). [a, b]) (pairs xs)"
    by (induction xs) (simp_all add: combinations_one)
  then show ?thesis by (simp add: numeral_2_eq_2)
qed

section \<open>The orientation loop of estimate\<close>

lemma collider_loop_exhausts:
  "collider_loop skel seps node_pairs pdag = Inr (rest, pdag') \<Longrightarrow> rest = []"
  by (induction skel seps node_pairs pdag rule: collider_loop.induct)
     (auto split: sum.splits if_splits)

lemma orient_loop_exhausted: "orient_loop remove asp [] pdag n = Inr (pdag, Suc n)"
  by (simp add: orient_loop.simps)

lemma estimate_run_collider_only:
  "estimate_run test set_order remove all_simple_paths p_value nodes =
       (case estimate_skeleton test set_order p_value nodes of
          Inl e \<Rightarrow> Inl e
        | Inr (skel, seps) \<Rightarrow>
            (case collider_loop skel seps (pairs nodes) (to_directed skel) of
               Inl e \<Rightarrow> Inl e
             | Inr (node_pairs, pdag) \<Rightarrow> Inr (pdag, 1)))"
proof (cases "estimate_skeleton test set_order p_value nodes")
  case (Inl e)
  then show ?thesis by (simp add: estimate_run_def)
next
  case (Inr r)
  obtain skel seps where r: "r = (skel, seps)" by (cases r)
  show ?thesis
  proof (cases "collider_loop skel seps (pairs nodes) (to_directed skel)")
    case (Inl e)
    with Inr r show ?thesis by (simp add: estimate_run_def)
  next
    case c: (Inr q)
    obtain rest pdag where q: "q = (rest, pdag)" by (cases q)
    from c q collider_loop_exhausts have "rest = []" by fastforce
    with Inr r c q show ?thesis by (simp add: estimate_run_def orient_loop_exhausted)
  qed
qed

text \<open>
  Claim C10. In \<open>estimate\<close> the iterator \<open>node_pairs\<close> is used up by the collider
  loop: each of the three rule loops, started on the exhausted iterator, makes no
  iteration and returns the graph as it is. So for every input the \<open>while\<close> loop makes
  exactly one pass, and \<open>estimate\<close> returns the graph that the collider loop produced from
  the directed copy of the skeleton (or the exception that the skeleton estimation or the
  collider loop raised). This holds whatever \<open>pdag.remove\<close> and
  \<open>nx.all_simple_paths\<close> would do.
\<close>

theorem estimate_is_collider_step_only:
  "rule1_loop remove [] pdag0 = Inr ([], pdag0)
   \<and> rule2_loop remove all_simple_paths [] pdag0 = Inr ([], pdag0)
   \<and> rule3_loop remove [] pdag0 = Inr ([], pdag0)
   \<and> estimate_run test set_order remove all_simple_paths p_value nodes =
       (case estimate_skeleton test set_order p_value nodes of
          Inl e \<Rightarrow> Inl e
        | Inr (skel, seps) \<Rightarrow>
            (case collider_loop skel seps (pairs nodes) (to_directed skel) of
               Inl e \<Rightarrow> Inl e
             | Inr (node_pairs, pdag) \<Rightarrow> Inr (pdag, 1)))
   \<and> estimate test set_order remove all_simple_paths p_value nodes =
       (case estimate_skeleton test set_order p_value nodes of
          Inl e \<Rightarrow> Inl e
        | Inr (skel, seps) \<Rightarrow>
            (case collider_loop skel seps (pairs nodes) (to_directed skel) of
               Inl e \<Rightarrow> Inl e
             | Inr (node_pairs, pdag) \<Rightarrow> Inr pdag))"
proof -
  have "estimate test set_order remove all_simple_paths p_value nodes =
       (case estimate_skeleton test set_order p_value nodes of
          Inl e \<Rightarrow> Inl e
        | Inr (skel, seps) \<Rightarrow>
            (case collider_loop skel seps (pairs nodes) (to_directed skel) of
               Inl e \<Rightarrow> Inl e
             | Inr (node_pairs, pdag) \<Rightarrow> Inr pdag))"
    unfolding estimate_def estimate_run_collider_only by (simp split: sum.splits prod.splits)
  with estimate_run_collider_only [of test set_order remove all_simple_paths p_value nodes]
  show ?thesis by simp
qed

text \<open>
  Claim C1, evaluated where the code departs from it. With the outcomes
  \<open>two_pairs_test\<close> the skeleton has the two edges \<open>0 - 1\<close> and \<open>2 - 3\<close> and no
  unshielded triple at all. The collider loop nevertheless removes both directions of the
  edge \<open>0 - 1\<close>: for the pair \<open>(0, 2)\<close> it takes \<open>Z = 1\<close> from the neighbours of \<open>0\<close>
  alone and removes \<open>1 \<rightarrow> 0\<close>, for the pair \<open>(1, 2)\<close> it takes \<open>Z = 0\<close> and removes
  \<open>0 \<rightarrow> 1\<close>. The graph returned by \<open>estimate\<close> has only the edge \<open>2 - 3\<close> left.
\<close>

theorem collider_step_removes_edges_outside_triples:
  "estimate_skeleton two_pairs_test ascending (1/20) [0, 1, 2, 3]
     = Inr ([(0, 1), (2, 3)], [({1, 3}, []), ({1, 2}, []), ({0, 3}, []), ({0, 2}, [])])
   \<and> list_all (\<lambda>X. list_all (\<lambda>Z. list_all (\<lambda>Y.
         \<not> unshielded_triple [(0, 1), (2, 3)] X Z Y) [0, 1, 2, 3]) [0, 1, 2, 3]) [0, 1, 2, 3::nat]
   \<and> to_directed [(0, 1), (2, 3::nat)] = [(0, 1), (1, 0), (2, 3), (3, 2)]
   \<and> estimate two_pairs_test ascending remove_directed unbound_all_simple_paths (1/20) [0, 1, 2, 3]
     = Inr [(2, 3), (3, 2)]"
  by (simp add: eval_simps two_pairs_test_def unshielded_triple_def)

text \<open>
  Claim C5, evaluated where the code departs from it. With the outcomes
  \<open>faithful_test\<close> the graph returned by \<open>estimate\<close> has the bidirected edge \<open>2 - 4\<close>
  together with the directed path \<open>2 \<rightarrow> 3 \<rightarrow> 4\<close>: rule 2 was never applied to it.
\<close>

theorem returned_pdag_keeps_bidirected_edge_along_directed_path:
  "estimate faithful_test ascending remove_directed unbound_all_simple_paths (1/20) [0, 1, 2, 3, 4]
     = Inr [(0, 3), (1, 2), (2, 1), (1, 4), (2, 3), (2, 4), (4, 2), (3, 4)]
   \<and> bidirected [(0, 3), (1, 2), (2, 1), (1, 4), (2, 3), (2, 4), (4, 2), (3, 4)] 2 (4::nat)
   \<and> is_directed_path [(0, 3), (1, 2), (2, 1), (1, 4), (2, 3), (2, 4), (4, 2), (3, 4)] [2, 3, 4::nat]"
  by (simp add: eval_simps faithful_test_def bidirected_def)

section \<open>The conditional independence test\<close>


lemma product_lists_ConsI:
  "y \<in> set xs \<Longrightarrow> zs \<in> set (product_lists xss) \<Longrightarrow> y # zs \<in> set (product_lists (xs # xss))"
  by auto











text \<open>
  The product over many conditioning variables wraps around: with two states for each of
  63 conditioning variables \<open>np.prod\<close> yields \<open>- 2 ^ 63\<close>.
\<close>

lemma num_params_wraps: "num_params binary_states 0 1 [2..<65] = - (2 ^ 63)"
proof -
  have "prod_list (map (\<lambda>Z. int (length (binary_states Z))) [2..<65]) = 2 ^ 63"
    by (simp add: binary_states_def map_replicate_const prod_list_replicate)
  then show ?thesis
    by (simp add: num_params_def binary_states_def)
qed




text \<open>
  Claim C6, as the code has it. There is no separate result for a degenerate statistic.
  When exactly one pair of an observed and an expected frequency is left after the filter
  (in a call that passes the marginalisation), the function hands this pair to
  \<open>chisquare\<close> and returns the p-value like any other. This is the case whenever \<open>X\<close>
  and \<open>Y\<close> have one state each and there is no conditioning variable.
\<close>

theorem single_pair_is_passed_to_chisquare:
  "(retained data state_names X Y (normalize_Zs Zs_arg) = [(ob, e)]
      \<and> distinct (Y # normalize_Zs Zs_arg)
      \<longrightarrow> snd (test_conditional_independence data state_names X Y Zs_arg) = Inr (Chisquare [ob] [e]))
   \<and> (state_names X = [x] \<and> state_names Y = [y]
      \<longrightarrow> length (retained data state_names X Y []) = 1)"
proof -
  have "length (retained data state_names X Y []) = 1"
    if "state_names X = [x]" "state_names Y = [y]"
    using that
    by (simp add: retained_def cells_def column_index_def XYZ_expected_def XZ_state_counts_def
        YZ_state_counts_def Z_state_counts_def float_div_def)
  then show ?thesis
    by (simp add: test_conditional_independence_def Let_def)
qed

theorem single_pair_witness:
  "retained constant_data single_state 0 1 (normalize_Zs (Collection [])) = [(3, Num 3)]
   \<and> distinct (1 # normalize_Zs (Collection []) :: nat list)
   \<and> snd (test_conditional_independence constant_data single_state 0 1 (Collection []))
       = Inr (Chisquare [3] [Num 3])
   \<and> single_state 0 = [0] \<and> single_state 1 = [0]
   \<and> length (retained constant_data single_state 0 1 []) = 1"
proof -
  have r: "retained constant_data single_state 0 1 (normalize_Zs (Collection [])) = [(3, Num 3)]"
    by code_simp
  have d: "distinct (1 # normalize_Zs (Collection []) :: nat list)"
    by simp
  have s: "single_state 0 = [0]" "single_state 1 = [0]"
    by (simp_all add: single_state_def)
  note th = single_pair_is_passed_to_chisquare
         [of constant_data single_state 0 1 "Collection []" 3 "Num 3" 0 0]
  from r d have "retained constant_data single_state 0 1 (normalize_Zs (Collection [])) = [(3, Num 3)]
      \<and> distinct (1 # normalize_Zs (Collection []) :: nat list)" by blast
  from th [THEN conjunct1, THEN mp, OF this]
  have v: "snd (test_conditional_independence constant_data single_state 0 1 (Collection []))
       = Inr (Chisquare [3] [Num 3])" .
  from s have "single_state 0 = [0] \<and> single_state 1 = [0]" by blast
  from th [THEN conjunct2, THEN mp, OF this]
  have "length (retained constant_data single_state 0 1 []) = 1" .
  with r d v s show ?thesis by blast
qed

text \<open>
  Claim C6 as stated fails: on three rows in which \<open>X\<close> and \<open>Y\<close> are constant a single
  pair is left, and the function returns the p-value of \<open>chisquare([3], [3])\<close>.
\<close>

theorem degenerate_statistic_counterexample:
  "length (retained constant_data single_state 0 1 []) < 2
   \<and> test_conditional_independence constant_data single_state 0 1 (Collection [])
     = ([], Inr (Chisquare [3] [Num 3]))"
  by code_simp




text \<open>
  Claim C7, evaluated where the code departs from it. In \<open>equal_Zs_data\<close> the
  conditioning variables \<open>2\<close> and \<open>3\<close> never take the states \<open>(0, 1)\<close> or \<open>(1, 0)\<close>:
  the count of these combinations is 0 and the expected frequency of their cells is
  \<open>0 * 0 / 0 = NaN\<close>. The filter \<open>if not e == 0\<close> keeps these cells, so \<open>chisquare\<close>
  is called with eight expected frequencies that are NaN.
\<close>

theorem cells_of_unobserved_conditions_are_kept:
  "Z_state_counts equal_Zs_data binary_states 0 1 [2, 3] [0, 1] = 0
   \<and> Z_state_counts equal_Zs_data binary_states 0 1 [2, 3] [1, 0] = 0
   \<and> test_conditional_independence equal_Zs_data binary_states 0 1 (Collection [2, 3])
     = ([], Inr (Chisquare [1, 0, 0, 0, 0, 0, 0, 1, 0, 0, 0, 1, 1, 0, 0, 0]
                   [Num (1/2), NaN, NaN, Num (1/2), Num (1/2), NaN, NaN, Num (1/2),
                    Num (1/2), NaN, NaN, Num (1/2), Num (1/2), NaN, NaN, Num (1/2)]))"
  by code_simp

section \<open>The skeleton search\<close>

lemma skel_invI:
  assumes "distinct (map fst (seperating_sets st))"
    and "set (map fst (seperating_sets st)) = E0 - edge_pairs (graph st)"
    and "edge_pairs (graph st) \<subseteq> E0"
    and "\<And>t. t \<in> set (tested st) \<Longrightarrow> passes test p t \<Longrightarrow> test_pair t \<in> set (map fst (seperating_sets st))"
    and "sorted_wrt (\<lambda>newer older. passes test p older \<longrightarrow> test_pair newer \<noteq> test_pair older) (tested st)"
    and "\<And>K s. (K, s) \<in> set (seperating_sets st) \<Longrightarrow> \<exists>node nb. K = {node, nb} \<and> passes test p (node, nb, s)"
  shows "skel_inv test p E0 st"
  unfolding skel_inv_def using assms by blast

lemma skel_invD:
  assumes "skel_inv test p E0 st"
  shows "distinct (map fst (seperating_sets st))"
    and "set (map fst (seperating_sets st)) = E0 - edge_pairs (graph st)"
    and "edge_pairs (graph st) \<subseteq> E0"
    and "\<And>t. t \<in> set (tested st) \<Longrightarrow> passes test p t \<Longrightarrow> test_pair t \<in> set (map fst (seperating_sets st))"
    and "sorted_wrt (\<lambda>newer older. passes test p older \<longrightarrow> test_pair newer \<noteq> test_pair older) (tested st)"
    and "\<And>K s. (K, s) \<in> set (seperating_sets st) \<Longrightarrow> \<exists>node nb. K = {node, nb} \<and> passes test p (node, nb, s)"
proof -
  from assms show "distinct (map fst (seperating_sets st))"
    and "set (map fst (seperating_sets st)) = E0 - edge_pairs (graph st)"
    and "edge_pairs (graph st) \<subseteq> E0"
    and "sorted_wrt (\<lambda>newer older. passes test p older \<longrightarrow> test_pair newer \<noteq> test_pair older) (tested st)"
    by (simp_all add: skel_inv_def)
  show "test_pair t \<in> set (map fst (seperating_sets st))"
    if "t \<in> set (tested st)" "passes test p t" for t
    using assms that unfolding skel_inv_def by blast
  show "\<exists>node nb. K = {node, nb} \<and> passes test p (node, nb, s)"
    if "(K, s) \<in> set (seperating_sets st)" for K s
    using assms that unfolding skel_inv_def by fast
qed

lemma has_edge_iff: "has_edge g a b \<longleftrightarrow> {a, b} \<in> edge_pairs g"
  by (auto simp: has_edge_def edge_pairs_def doubleton_eq_iff)

lemma edge_pairs_remove_edge: "edge_pairs (remove_edge g a b) = edge_pairs g - {{a, b}}"
proof (rule set_eqI)
  fix K
  show "K \<in> edge_pairs (remove_edge g a b) \<longleftrightarrow> K \<in> edge_pairs g - {{a, b}}"
  proof
    assume "K \<in> edge_pairs (remove_edge g a b)"
    then obtain c d where cd: "(c, d) \<in> set g" "(c, d) \<noteq> (a, b)" "(c, d) \<noteq> (b, a)" "K = {c, d}"
      unfolding edge_pairs_def remove_edge_def by fastforce
    from cd(2,3) have "{c, d} \<noteq> {a, b}" by (simp add: doubleton_eq_iff)
    moreover from cd(1) have "{c, d} \<in> edge_pairs g" unfolding edge_pairs_def by force
    ultimately show "K \<in> edge_pairs g - {{a, b}}" using cd(4) by simp
  next
    assume "K \<in> edge_pairs g - {{a, b}}"
    then obtain c d where cd: "(c, d) \<in> set g" "K = {c, d}" "{c, d} \<noteq> {a, b}"
      unfolding edge_pairs_def by fastforce
    from cd(3) have "(c, d) \<noteq> (a, b)" "(c, d) \<noteq> (b, a)" by (auto simp: doubleton_eq_iff)
    with cd(1) have "(c, d) \<in> set (remove_edge g a b)" by (simp add: remove_edge_def)
    then show "K \<in> edge_pairs (remove_edge g a b)" unfolding edge_pairs_def cd(2) by force
  qed
qed

lemma set_remove_edge: "set (remove_edge g a b) \<subseteq> set g"
  by (auto simp: remove_edge_def)

lemma set_neighbors: "set (neighbors g n) = {m. has_edge g n m}"
proof -
  have "set (concat (map (\<lambda>(a, b). if a = n then [b] else if b = n then [a] else []) g))
      = {m. (n, m) \<in> set g \<or> (m, n) \<in> set g}"
    by (induction g) auto
  then show ?thesis by (simp add: neighbors_def has_edge_def)
qed

lemma distinct_neighbors: "distinct (neighbors g n)"
  by (simp add: neighbors_def)

lemma has_edge_remove_edge:
  "has_edge (remove_edge g n nb) n m \<longleftrightarrow> has_edge g n m \<and> m \<noteq> nb"
  by (auto simp: has_edge_iff edge_pairs_remove_edge doubleton_eq_iff)

lemma older_passed_pair_differs:
  assumes inv: "skel_inv test p E0 st" and adj: "has_edge (graph st) node nb"
    and old: "older \<in> set (tested st)" "passes test p older"
  shows "test_pair (node, nb, s) \<noteq> test_pair older"
proof -
  from skel_invD(4) [OF inv old] skel_invD(2) [OF inv]
  have "test_pair older \<notin> edge_pairs (graph st)" by blast
  moreover from adj have "test_pair (node, nb, s) \<in> edge_pairs (graph st)"
    by (simp add: has_edge_iff test_pair_def)
  ultimately show ?thesis by metis
qed

lemma skel_inv_failed_test:
  assumes inv: "skel_inv test p E0 st" and adj: "has_edge (graph st) node nb"
    and fail: "\<not> passes test p (node, nb, s)"
  shows "skel_inv test p E0 (st\<lparr>tested := (node, nb, s) # tested st\<rparr>)"
proof (rule skel_invI)
  show "distinct (map fst (seperating_sets (st\<lparr>tested := (node, nb, s) # tested st\<rparr>)))"
    using skel_invD(1) [OF inv] by simp
  show "set (map fst (seperating_sets (st\<lparr>tested := (node, nb, s) # tested st\<rparr>)))
      = E0 - edge_pairs (graph (st\<lparr>tested := (node, nb, s) # tested st\<rparr>))"
    using skel_invD(2) [OF inv] by simp
  show "edge_pairs (graph (st\<lparr>tested := (node, nb, s) # tested st\<rparr>)) \<subseteq> E0"
    using skel_invD(3) [OF inv] by simp
  show "test_pair t \<in> set (map fst (seperating_sets (st\<lparr>tested := (node, nb, s) # tested st\<rparr>)))"
    if "t \<in> set (tested (st\<lparr>tested := (node, nb, s) # tested st\<rparr>))" "passes test p t" for t
  proof -
    from that fail have "t \<in> set (tested st)" by auto
    from skel_invD(4) [OF inv this that(2)] show ?thesis by simp
  qed
  show "sorted_wrt (\<lambda>newer older. passes test p older \<longrightarrow> test_pair newer \<noteq> test_pair older)
      (tested (st\<lparr>tested := (node, nb, s) # tested st\<rparr>))"
    using skel_invD(5) [OF inv] older_passed_pair_differs [OF inv adj] by simp
  show "\<exists>n m. K = {n, m} \<and> passes test p (n, m, s')"
    if "(K, s') \<in> set (seperating_sets (st\<lparr>tested := (node, nb, s) # tested st\<rparr>))" for K s'
    using that skel_invD(6) [OF inv, of K s'] by simp
qed

lemma skel_inv_passed_test:
  assumes inv: "skel_inv test p E0 st" and adj: "has_edge (graph st) node nb"
    and pass: "passes test p (node, nb, s)"
  shows "skel_inv test p E0
           (st\<lparr>tested := (node, nb, s) # tested st,
               seperating_sets := ({node, nb}, s) # seperating_sets st,
               removals := r # removals st,
               graph := remove_edge (graph st) node nb\<rparr>)"
    (is "skel_inv test p E0 ?st'")
proof (rule skel_invI)
  from adj have in_g: "{node, nb} \<in> edge_pairs (graph st)"
    by (simp add: has_edge_iff)
  with skel_invD(3) [OF inv] have in_E0: "{node, nb} \<in> E0" by blast
  from in_g skel_invD(2) [OF inv] have fresh: "{node, nb} \<notin> set (map fst (seperating_sets st))"
    by blast
  show "distinct (map fst (seperating_sets ?st'))"
    using skel_invD(1) [OF inv] fresh by simp
  show "set (map fst (seperating_sets ?st')) = E0 - edge_pairs (graph ?st')"
    using skel_invD(2) [OF inv] in_E0 by (auto simp: edge_pairs_remove_edge)
  show "edge_pairs (graph ?st') \<subseteq> E0"
    using skel_invD(3) [OF inv] by (auto simp: edge_pairs_remove_edge)
  show "test_pair t \<in> set (map fst (seperating_sets ?st'))"
    if "t \<in> set (tested ?st')" "passes test p t" for t
  proof (cases "t = (node, nb, s)")
    case True
    then show ?thesis by (simp add: test_pair_def)
  next
    case False
    with that have "t \<in> set (tested st)" by simp
    from skel_invD(4) [OF inv this that(2)] show ?thesis by simp
  qed
  show "sorted_wrt (\<lambda>newer older. passes test p older \<longrightarrow> test_pair newer \<noteq> test_pair older)
      (tested ?st')"
    using skel_invD(5) [OF inv] older_passed_pair_differs [OF inv adj] by simp
  show "\<exists>n m. K = {n, m} \<and> passes test p (n, m, s')"
    if "(K, s') \<in> set (seperating_sets ?st')" for K s'
  proof (cases "(K, s') = ({node, nb}, s)")
    case True
    with pass show ?thesis by blast
  next
    case False
    with that have "(K, s') \<in> set (seperating_sets st)" by auto
    from skel_invD(6) [OF inv this] show ?thesis .
  qed
qed

lemma search_subsets_inv:
  assumes "search_subsets test p k node nb cs st = Inr st'"
    and "skel_inv test p E0 st" and "has_edge (graph st) node nb"
  shows "skel_inv test p E0 st' \<and> rounds st' = rounds st
     \<and> (graph st' = graph st \<or> graph st' = remove_edge (graph st) node nb)"
  using assms
proof (induction cs arbitrary: st)
  case Nil
  then show ?case by simp
next
  case (Cons c cs)
  from Cons.prems(1) obtain v where v: "test node nb c = Inr v"
    by (cases "test node nb c") auto
  show ?case
  proof (cases "float_ge v p")
    case True
    with v have "passes test p (node, nb, c)" by (simp add: passes_def)
    from skel_inv_passed_test [OF Cons.prems(2,3) this] Cons.prems(1) v True
    show ?thesis by (auto simp: Let_def)
  next
    case False
    with v have "\<not> passes test p (node, nb, c)" by (simp add: passes_def)
    from skel_inv_failed_test [OF Cons.prems(2,3) this]
    have inv1: "skel_inv test p E0 (st\<lparr>tested := (node, nb, c) # tested st\<rparr>)" .
    from Cons.prems(1) v False
    have run: "search_subsets test p k node nb cs (st\<lparr>tested := (node, nb, c) # tested st\<rparr>) = Inr st'"
      by (simp add: Let_def)
    from Cons.IH [OF run inv1] Cons.prems(3) show ?thesis by simp
  qed
qed

lemma for_neighbors_inv:
  assumes "for_neighbors test so p k node nbs st = Inr st'"
    and "skel_inv test p E0 st" and "distinct nbs" and "\<forall>nb\<in>set nbs. has_edge (graph st) node nb"
  shows "skel_inv test p E0 st' \<and> rounds st' = rounds st \<and> set (graph st') \<subseteq> set (graph st)"
  using assms
proof (induction nbs arbitrary: st)
  case Nil
  then show ?case by simp
next
  case (Cons nb nbs)
  from Cons.prems(1) obtain st1 where
    s: "search_subsets test p k node nb (combinations (so (set_minus (neighbors (graph st) node) [nb])) k) st = Inr st1"
    and r: "for_neighbors test so p k node nbs st1 = Inr st'"
    by (auto split: sum.splits)
  from Cons.prems(4) have adj: "has_edge (graph st) node nb" by simp
  from search_subsets_inv [OF s Cons.prems(2) adj]
  have inv1: "skel_inv test p E0 st1" and r1: "rounds st1 = rounds st"
    and g1: "graph st1 = graph st \<or> graph st1 = remove_edge (graph st) node nb"
    by simp_all
  from Cons.prems(3) have d: "distinct nbs" and notin: "nb \<notin> set nbs" by simp_all
  have "\<forall>m\<in>set nbs. has_edge (graph st1) node m"
    using g1 Cons.prems(4) notin by (auto simp: has_edge_remove_edge)
  from Cons.IH [OF r inv1 d this]
  have inv': "skel_inv test p E0 st'" and r': "rounds st' = rounds st1"
    and g': "set (graph st') \<subseteq> set (graph st1)"
    by simp_all
  from g1 set_remove_edge [of "graph st" node nb] have "set (graph st1) \<subseteq> set (graph st)"
    by auto
  with g' have "set (graph st') \<subseteq> set (graph st)" by (rule subset_trans)
  with inv' r' r1 show ?case by simp
qed

lemma for_nodes_inv:
  assumes "for_nodes test so p k ns st = Inr st'" and "skel_inv test p E0 st"
  shows "skel_inv test p E0 st' \<and> rounds st' = rounds st \<and> set (graph st') \<subseteq> set (graph st)"
  using assms
proof (induction ns arbitrary: st)
  case Nil
  then show ?case by simp
next
  case (Cons n ns)
  from Cons.prems(1) obtain st1 where
    s: "for_neighbors test so p k n (neighbors (graph st) n) st = Inr st1"
    and r: "for_nodes test so p k ns st1 = Inr st'"
    by (auto split: sum.splits)
  have "\<forall>nb\<in>set (neighbors (graph st) n). has_edge (graph st) n nb"
    by (simp add: set_neighbors)
  from for_neighbors_inv [OF s Cons.prems(2) distinct_neighbors this]
  have inv1: "skel_inv test p E0 st1" and r1: "rounds st1 = rounds st"
    and g1: "set (graph st1) \<subseteq> set (graph st)"
    by simp_all
  from Cons.IH [OF r inv1]
  have inv': "skel_inv test p E0 st'" and r': "rounds st' = rounds st1"
    and g': "set (graph st') \<subseteq> set (graph st1)"
    by simp_all
  from g' g1 have "set (graph st') \<subseteq> set (graph st)" by (rule subset_trans)
  with inv' r' r1 show ?case by simp
qed


lemma edge_pairs_Cons: "edge_pairs (e # g) = insert {fst e, snd e} (edge_pairs g)"
  by (cases e) (simp add: edge_pairs_def)

lemma edge_pairs_append: "edge_pairs (g @ h) = edge_pairs g \<union> edge_pairs h"
  by (simp add: edge_pairs_def image_Un)

lemma edge_pairs_map_Pair: "edge_pairs (map (Pair x) xs) = (\<lambda>b. {x, b}) ` set xs"
  by (simp add: edge_pairs_def image_image)

lemma edge_pairs_mono: "set g \<subseteq> set h \<Longrightarrow> edge_pairs g \<subseteq> edge_pairs h"
  unfolding edge_pairs_def by (rule image_mono)

lemma edge_pairs_pairs:
  "distinct xs \<Longrightarrow> edge_pairs (pairs xs) = {{a, b} | a b. a \<in> set xs \<and> b \<in> set xs \<and> a \<noteq> b}"
proof (induction xs)
  case Nil
  then show ?case by (simp add: edge_pairs_def)
next
  case (Cons x xs)
  then have IH: "edge_pairs (pairs xs) = {{a, b} | a b. a \<in> set xs \<and> b \<in> set xs \<and> a \<noteq> b}"
    and x: "x \<notin> set xs" by simp_all
  have "(\<lambda>b. {x, b}) ` set xs \<union> {{a, b} | a b. a \<in> set xs \<and> b \<in> set xs \<and> a \<noteq> b}
      = {{a, b} | a b. a \<in> set (x # xs) \<and> b \<in> set (x # xs) \<and> a \<noteq> b}" (is "?L = ?R")
  proof (rule set_eqI)
    fix K
    show "K \<in> ?L \<longleftrightarrow> K \<in> ?R"
    proof
      assume "K \<in> ?L"
      then consider b where "b \<in> set xs" "K = {x, b}"
        | a b where "a \<in> set xs" "b \<in> set xs" "a \<noteq> b" "K = {a, b}" by blast
      then show "K \<in> ?R"
      proof cases
        case 1
        with x have "x \<noteq> b" by blast
        with 1 show ?thesis by auto
      next
        case 2
        then show ?thesis by auto
      qed
    next
      assume "K \<in> ?R"
      then obtain a b where ab: "a \<in> set (x # xs)" "b \<in> set (x # xs)" "a \<noteq> b" "K = {a, b}"
        by blast
      show "K \<in> ?L"
      proof (cases "a = x")
        case True
        with ab have "b \<in> set xs" by auto
        with True ab(4) show ?thesis by blast
      next
        case False
        with ab have a: "a \<in> set xs" by simp
        show ?thesis
        proof (cases "b = x")
          case True
          with ab(4) have "K = {x, a}" by (simp add: insert_commute)
          with a show ?thesis by blast
        next
          case False
          with ab have "b \<in> set xs" by simp
          with a ab(3,4) show ?thesis by blast
        qed
      qed
    qed
  qed
  then show ?case
    by (simp only: pairs.simps edge_pairs_append edge_pairs_map_Pair IH)
qed

lemma degree_bound:
  assumes d: "distinct nodes" and sub: "edge_pairs g \<subseteq> edge_pairs (pairs nodes)"
    and n: "node \<in> set nodes"
  shows "length (neighbors g node) < length nodes"
proof -
  have "set (neighbors g node) \<subseteq> set nodes - {node}"
  proof
    fix m
    assume "m \<in> set (neighbors g node)"
    then have "{node, m} \<in> edge_pairs g"
      by (simp add: set_neighbors has_edge_iff)
    with sub have "{node, m} \<in> edge_pairs (pairs nodes)" by blast
    then obtain a b where ab: "a \<in> set nodes" "b \<in> set nodes" "a \<noteq> b" "{node, m} = {a, b}"
      unfolding edge_pairs_pairs [OF d] by blast
    from ab(4) have "(node = a \<and> m = b) \<or> (node = b \<and> m = a)"
      by (simp add: doubleton_eq_iff)
    with ab(1,2,3) show "m \<in> set nodes - {node}" by auto
  qed
  then have "card (set (neighbors g node)) \<le> card (set nodes - {node})"
    by (intro card_mono) auto
  also have "\<dots> < card (set nodes)"
    using n by (intro psubset_card_mono) auto
  finally show ?thesis
    using d by (simp add: distinct_card distinct_neighbors)
qed

lemma skel_inv_rounds_update [simp]:
  "skel_inv test p E0 (st\<lparr>rounds := r\<rparr>) = skel_inv test p E0 st"
  unfolding skel_inv_def by simp

lemma skeleton_loop_inv:
  assumes "skeleton_loop test so p nodes k st = Inr (st', k')"
    and "skel_inv test p E0 st"
    and "length (rounds st) = k"
    and "sorted_wrt (\<lambda>g g'. set g' \<subseteq> set g) (rounds st @ [graph st])"
    and "\<forall>j<k. \<not> all_below nodes j (rounds st ! j)"
    and "hd (rounds st @ [graph st]) = g0"
  shows "skel_inv test p E0 st' \<and> length (rounds st') = k'
     \<and> sorted_wrt (\<lambda>g g'. set g' \<subseteq> set g) (rounds st' @ [graph st'])
     \<and> (\<forall>j<k'. \<not> all_below nodes j (rounds st' ! j))
     \<and> hd (rounds st' @ [graph st']) = g0
     \<and> all_below nodes k' (graph st')"
  using assms
proof (induction test so p nodes k st rule: skeleton_loop.induct)
  case (1 test so p nodes k st)
  show ?case
  proof (cases "all_below nodes k (graph st)")
    case True
    with "1.prems"(1) have "st' = st" "k' = k"
      by (simp_all add: skeleton_loop.simps)
    with "1.prems" True show ?thesis by simp
  next
    case False
    let ?st0 = "st\<lparr>rounds := rounds st @ [graph st]\<rparr>"
    from "1.prems"(1) False obtain st1 where
      pass: "for_nodes test so p k nodes ?st0 = Inr st1"
      and rest: "skeleton_loop test so p nodes (Suc k) st1 = Inr (st', k')"
      by (auto simp: skeleton_loop.simps split: sum.splits)
    from "1.prems"(2) have inv0: "skel_inv test p E0 ?st0"
      by simp
    from for_nodes_inv [OF pass inv0]
    have inv1: "skel_inv test p E0 st1" and r1: "rounds st1 = rounds st @ [graph st]"
      and g1: "set (graph st1) \<subseteq> set (graph st)"
      by simp_all
    have len1: "length (rounds st1) = Suc k"
      using r1 "1.prems"(3) by simp
    have "\<forall>g\<in>set (rounds st). set (graph st) \<subseteq> set g"
      using "1.prems"(4) by (simp add: sorted_wrt_append)
    with g1 have "\<forall>g\<in>set (rounds st @ [graph st]). set (graph st1) \<subseteq> set g"
      by auto
    with "1.prems"(4) have chain1: "sorted_wrt (\<lambda>g g'. set g' \<subseteq> set g) (rounds st1 @ [graph st1])"
      unfolding r1 by (simp add: sorted_wrt_append)
    have nb1: "\<forall>j<Suc k. \<not> all_below nodes j (rounds st1 ! j)"
    proof (intro allI impI)
      fix j
      assume "j < Suc k"
      show "\<not> all_below nodes j (rounds st1 ! j)"
      proof (cases "j = k")
        case True
        with False r1 "1.prems"(3) show ?thesis by (simp add: nth_append)
      next
        case False
        with \<open>j < Suc k\<close> have "j < k" by simp
        with "1.prems"(3,5) r1 show ?thesis by (simp add: nth_append)
      qed
    qed
    have hd1: "hd (rounds st1 @ [graph st1]) = g0"
      using "1.prems"(6) r1 by (cases "rounds st") simp_all
    from "1.IH" [OF False pass rest inv1 len1 chain1 nb1 hd1] show ?thesis .
  qed
qed


lemma chain_run:
  "estimate_skeleton_run chain_test ascending (1/20) [0, 1, 2] = Inr (chain_final_state, 3)"
  by (simp add: estimate_skeleton_run_def skeleton_loop.simps all_below_def neighbors_def
      remove_edge_def set_minus_def ascending_def chain_test_def chain_final_state_def
      doubleton_eq_iff Let_def)

lemma search_subsets_subset:
  "search_subsets test p k node nb cs st = Inr st' \<Longrightarrow> set (graph st') \<subseteq> set (graph st)"
proof (induction cs arbitrary: st)
  case Nil
  then show ?case by simp
next
  case (Cons c cs)
  from Cons.prems obtain v where v: "test node nb c = Inr v"
    by (cases "test node nb c") auto
  show ?case
  proof (cases "float_ge v p")
    case True
    with v Cons.prems have "graph st' = remove_edge (graph st) node nb"
      by (auto simp: Let_def)
    then show ?thesis by (simp add: set_remove_edge)
  next
    case False
    with v Cons.prems
    have "search_subsets test p k node nb cs (st\<lparr>tested := (node, nb, c) # tested st\<rparr>) = Inr st'"
      by (simp add: Let_def)
    from Cons.IH [OF this] show ?thesis by simp
  qed
qed

lemma for_neighbors_subset:
  "for_neighbors test so p k node nbs st = Inr st' \<Longrightarrow> set (graph st') \<subseteq> set (graph st)"
proof (induction nbs arbitrary: st)
  case Nil
  then show ?case by simp
next
  case (Cons nb nbs)
  then obtain st1 where
    s: "search_subsets test p k node nb (combinations (so (set_minus (neighbors (graph st) node) [nb])) k) st = Inr st1"
    and r: "for_neighbors test so p k node nbs st1 = Inr st'"
    by (auto split: sum.splits)
  from Cons.IH [OF r] search_subsets_subset [OF s] show ?case by (rule subset_trans)
qed

lemma for_nodes_subset:
  "for_nodes test so p k ns st = Inr st' \<Longrightarrow> set (graph st') \<subseteq> set (graph st)"
proof (induction ns arbitrary: st)
  case Nil
  then show ?case by simp
next
  case (Cons n ns)
  then obtain st1 where
    s: "for_neighbors test so p k n (neighbors (graph st) n) st = Inr st1"
    and r: "for_nodes test so p k ns st1 = Inr st'"
    by (auto split: sum.splits)
  from Cons.IH [OF r] for_neighbors_subset [OF s] show ?case by (rule subset_trans)
qed

lemma initial_skel_inv:
  "skel_inv test p (edge_pairs (pairs nodes))
     \<lparr>graph = pairs nodes, seperating_sets = [], tested = [], rounds = [], removals = []\<rparr>"
  by (simp add: skel_inv_def)

lemma estimate_skeleton_run_inv:
  assumes "estimate_skeleton_run test so p nodes = Inr (st, k)"
  shows "skel_inv test p (edge_pairs (pairs nodes)) st \<and> length (rounds st) = k
     \<and> sorted_wrt (\<lambda>g g'. set g' \<subseteq> set g) (rounds st @ [graph st])
     \<and> (\<forall>j<k. \<not> all_below nodes j (rounds st ! j))
     \<and> hd (rounds st @ [graph st]) = pairs nodes
     \<and> all_below nodes k (graph st)"
  by (rule skeleton_loop_inv [OF assms [unfolded estimate_skeleton_run_def] initial_skel_inv])
     simp_all

text \<open>
  Claim C3. The edge set of the working graph only shrinks. The one operation on the graph,
  \<open>remove_edge\<close>, adds no edge, and the same holds for the innermost loop, for the loop
  over the neighbours and for a whole pass over the nodes. In a finished run the graphs
  at the starts of the passes, followed by the returned graph, begin with the complete
  graph and form a chain: each is a subset of every earlier one, so the graph at the start
  of pass \<open>k + 1\<close> is a subset of the graph at the start of pass \<open>k\<close> and an edge that
  has been removed never comes back.
\<close>

theorem skeleton_edges_only_shrink:
  "set (remove_edge g a b) \<subseteq> set g
   \<and> (search_subsets test p_value lim_neighbors node neighbor subsets st = Inr st1
        \<longrightarrow> set (graph st1) \<subseteq> set (graph st))
   \<and> (for_neighbors test set_order p_value lim_neighbors node nbs st = Inr st2
        \<longrightarrow> set (graph st2) \<subseteq> set (graph st))
   \<and> (for_nodes test set_order p_value lim_neighbors ns st = Inr st3
        \<longrightarrow> set (graph st3) \<subseteq> set (graph st))
   \<and> (estimate_skeleton_run test set_order p_value nodes = Inr (final, k)
        \<longrightarrow> length (rounds final) = k
          \<and> hd (rounds final @ [graph final]) = pairs nodes
          \<and> (\<forall>i j. i \<le> j \<and> j \<le> k
                \<longrightarrow> set ((rounds final @ [graph final]) ! j) \<subseteq> set ((rounds final @ [graph final]) ! i)))"
proof -
  have "length (rounds final) = k \<and> hd (rounds final @ [graph final]) = pairs nodes
      \<and> (\<forall>i j. i \<le> j \<and> j \<le> k
            \<longrightarrow> set ((rounds final @ [graph final]) ! j) \<subseteq> set ((rounds final @ [graph final]) ! i))"
    if run: "estimate_skeleton_run test set_order p_value nodes = Inr (final, k)"
  proof -
    from estimate_skeleton_run_inv [OF run]
    have len: "length (rounds final) = k"
      and chain: "sorted_wrt (\<lambda>g g'. set g' \<subseteq> set g) (rounds final @ [graph final])"
      and hd: "hd (rounds final @ [graph final]) = pairs nodes"
      by simp_all
    have "set ((rounds final @ [graph final]) ! j) \<subseteq> set ((rounds final @ [graph final]) ! i)"
      if "i \<le> j" "j \<le> k" for i j
    proof (cases "i = j")
      case True
      then show ?thesis by simp
    next
      case False
      with that len have "i < j" "j < length (rounds final @ [graph final])" by simp_all
      with chain show ?thesis by (rule sorted_wrt_nth_less)
    qed
    with len hd show ?thesis by blast
  qed
  with set_remove_edge [of g a b]
    search_subsets_subset [of test p_value lim_neighbors node neighbor subsets st st1]
    for_neighbors_subset [of test set_order p_value lim_neighbors node nbs st st2]
    for_nodes_subset [of test set_order p_value lim_neighbors ns st st3]
  show ?thesis by blast
qed

lemma one_edge_steps:
  "search_subsets two_pairs_test (1/20) 0 0 2 [[]] one_edge_state = Inr no_edge_state"
  "for_neighbors two_pairs_test ascending (1/20) 0 0 [2] one_edge_state = Inr no_edge_state"
  "for_nodes two_pairs_test ascending (1/20) 0 [0, 2] one_edge_state = Inr no_edge_state"
  by (simp_all add: one_edge_state_def no_edge_state_def two_pairs_test_def neighbors_def
      remove_edge_def set_minus_def ascending_def doubleton_eq_iff Let_def)

theorem skeleton_edges_only_shrink_witness:
  "search_subsets two_pairs_test (1/20) 0 0 2 [[]] one_edge_state = Inr no_edge_state
   \<and> for_neighbors two_pairs_test ascending (1/20) 0 0 [2] one_edge_state = Inr no_edge_state
   \<and> for_nodes two_pairs_test ascending (1/20) 0 [0, 2] one_edge_state = Inr no_edge_state
   \<and> set (graph no_edge_state) \<subseteq> set (graph one_edge_state)
   \<and> estimate_skeleton_run chain_test ascending (1/20) [0, 1, 2] = Inr (chain_final_state, 3)
   \<and> length (rounds chain_final_state) = 3
   \<and> hd (rounds chain_final_state @ [graph chain_final_state]) = pairs [0, 1, 2]
   \<and> set ((rounds chain_final_state @ [graph chain_final_state]) ! 3)
       \<subseteq> set ((rounds chain_final_state @ [graph chain_final_state]) ! 1)
   \<and> set ((rounds chain_final_state @ [graph chain_final_state]) ! 1)
       \<subseteq> set ((rounds chain_final_state @ [graph chain_final_state]) ! 0)"
proof -
  note th = skeleton_edges_only_shrink
  from th [THEN conjunct2, THEN conjunct1, THEN mp, OF one_edge_steps(1)]
  have s1: "set (graph no_edge_state) \<subseteq> set (graph one_edge_state)" .
  from th [THEN conjunct2, THEN conjunct2, THEN conjunct1, THEN mp, OF one_edge_steps(2)]
  have s2: "set (graph no_edge_state) \<subseteq> set (graph one_edge_state)" .
  from th [THEN conjunct2, THEN conjunct2, THEN conjunct2, THEN conjunct1, THEN mp, OF one_edge_steps(3)]
  have s3: "set (graph no_edge_state) \<subseteq> set (graph one_edge_state)" .
  from th [THEN conjunct2, THEN conjunct2, THEN conjunct2, THEN conjunct2, THEN mp, OF chain_run]
  have "length (rounds chain_final_state) = 3
      \<and> hd (rounds chain_final_state @ [graph chain_final_state]) = pairs [0, 1, 2]
      \<and> (\<forall>i j. i \<le> j \<and> j \<le> 3
            \<longrightarrow> set ((rounds chain_final_state @ [graph chain_final_state]) ! j)
                \<subseteq> set ((rounds chain_final_state @ [graph chain_final_state]) ! i))" .
  then have "length (rounds chain_final_state) = 3"
    and "hd (rounds chain_final_state @ [graph chain_final_state]) = pairs [0, 1, 2]"
    and "set ((rounds chain_final_state @ [graph chain_final_state]) ! 3)
       \<subseteq> set ((rounds chain_final_state @ [graph chain_final_state]) ! 1)"
    and "set ((rounds chain_final_state @ [graph chain_final_state]) ! 1)
       \<subseteq> set ((rounds chain_final_state @ [graph chain_final_state]) ! 0)"
    by simp_all
  with chain_run one_edge_steps s1 s2 s3 show ?thesis by blast
qed

lemma search_subsets_total:
  "\<forall>node nb s. \<exists>v. test node nb s = Inr v \<Longrightarrow> \<exists>st'. search_subsets test p k node nb cs st = Inr st'"
proof (induction cs arbitrary: st)
  case Nil
  then show ?case by simp
next
  case (Cons c cs)
  then obtain v where v: "test node nb c = Inr v" by blast
  from Cons.IH [OF Cons.prems, of "st\<lparr>tested := (node, nb, c) # tested st\<rparr>"] v
  show ?case by (cases "float_ge v p") (simp_all add: Let_def)
qed

lemma for_neighbors_total:
  "\<forall>node nb s. \<exists>v. test node nb s = Inr v \<Longrightarrow> \<exists>st'. for_neighbors test so p k node nbs st = Inr st'"
proof (induction nbs arbitrary: st)
  case Nil
  then show ?case by simp
next
  case (Cons nb nbs)
  from search_subsets_total [OF Cons.prems] obtain st1 where
    "search_subsets test p k node nb (combinations (so (set_minus (neighbors (graph st) node) [nb])) k) st = Inr st1"
    by blast
  with Cons.IH [OF Cons.prems, of st1] show ?case by simp
qed

lemma for_nodes_total:
  "\<forall>node nb s. \<exists>v. test node nb s = Inr v \<Longrightarrow> \<exists>st'. for_nodes test so p k ns st = Inr st'"
proof (induction ns arbitrary: st)
  case Nil
  then show ?case by simp
next
  case (Cons n ns)
  from for_neighbors_total [OF Cons.prems] obtain st1 where
    "for_neighbors test so p k n (neighbors (graph st) n) st = Inr st1"
    by blast
  with Cons.IH [OF Cons.prems, of st1] show ?case by simp
qed

lemma skeleton_loop_total:
  "\<forall>node nb s. \<exists>v. test node nb s = Inr v \<Longrightarrow> \<exists>r. skeleton_loop test so p nodes k st = Inr r"
proof (induction test so p nodes k st rule: skeleton_loop.induct)
  case (1 test so p nodes k st)
  show ?case
  proof (cases "all_below nodes k (graph st)")
    case True
    then show ?thesis by (simp add: skeleton_loop.simps)
  next
    case False
    from for_nodes_total [OF "1.prems"] obtain st1 where
      pass: "for_nodes test so p k nodes (st\<lparr>rounds := rounds st @ [graph st]\<rparr>) = Inr st1"
      by blast
    from "1.IH" [OF False pass "1.prems"] False pass show ?thesis
      by (simp add: skeleton_loop.simps)
  qed
qed

lemma search_subsets_error:
  "search_subsets test p k node nb cs st = Inl e \<Longrightarrow> \<exists>n m s. test n m s = Inl e"
proof (induction cs arbitrary: st)
  case Nil
  then show ?case by simp
next
  case (Cons c cs)
  show ?case
  proof (cases "test node nb c")
    case (Inl e')
    with Cons.prems have "e' = e" by simp
    with Inl show ?thesis by blast
  next
    case (Inr v)
    with Cons.prems
    have "search_subsets test p k node nb cs (st\<lparr>tested := (node, nb, c) # tested st\<rparr>) = Inl e"
      by (cases "float_ge v p") (simp_all add: Let_def)
    from Cons.IH [OF this] show ?thesis .
  qed
qed

lemma for_neighbors_error:
  "for_neighbors test so p k node nbs st = Inl e \<Longrightarrow> \<exists>n m s. test n m s = Inl e"
proof (induction nbs arbitrary: st)
  case Nil
  then show ?case by simp
next
  case (Cons nb nbs)
  show ?case
  proof (cases "search_subsets test p k node nb (combinations (so (set_minus (neighbors (graph st) node) [nb])) k) st")
    case (Inl e')
    with Cons.prems have "e' = e" by simp
    with Inl search_subsets_error show ?thesis by fast
  next
    case (Inr st1)
    with Cons.prems have "for_neighbors test so p k node nbs st1 = Inl e" by simp
    from Cons.IH [OF this] show ?thesis .
  qed
qed

lemma for_nodes_error:
  "for_nodes test so p k ns st = Inl e \<Longrightarrow> \<exists>n m s. test n m s = Inl e"
proof (induction ns arbitrary: st)
  case Nil
  then show ?case by simp
next
  case (Cons n ns)
  show ?case
  proof (cases "for_neighbors test so p k n (neighbors (graph st) n) st")
    case (Inl e')
    with Cons.prems have "e' = e" by simp
    with Inl for_neighbors_error show ?thesis by fast
  next
    case (Inr st1)
    with Cons.prems have "for_nodes test so p k ns st1 = Inl e" by simp
    from Cons.IH [OF this] show ?thesis .
  qed
qed

lemma skeleton_loop_error:
  "skeleton_loop test so p nodes k st = Inl e \<Longrightarrow> \<exists>n m s. test n m s = Inl e"
proof (induction test so p nodes k st rule: skeleton_loop.induct)
  case (1 test so p nodes k st)
  show ?case
  proof (cases "all_below nodes k (graph st)")
    case True
    with "1.prems" show ?thesis by (simp add: skeleton_loop.simps)
  next
    case False
    show ?thesis
    proof (cases "for_nodes test so p k nodes (st\<lparr>rounds := rounds st @ [graph st]\<rparr>)")
      case (Inl e')
      with "1.prems" False have "e' = e" by (simp add: skeleton_loop.simps)
      with Inl for_nodes_error show ?thesis by fast
    next
      case (Inr st1)
      with "1.prems" False have "skeleton_loop test so p nodes (Suc k) st1 = Inl e"
        by (simp add: skeleton_loop.simps)
      from "1.IH" [OF False Inr this] show ?thesis .
    qed
  qed
qed

lemma rounds_bound:
  assumes d: "distinct nodes" and run: "estimate_skeleton_run test so p nodes = Inr (st, k)"
  shows "k \<le> length nodes"
proof (cases k)
  case 0
  then show ?thesis by simp
next
  case (Suc j)
  from estimate_skeleton_run_inv [OF run]
  have len: "length (rounds st) = k"
    and chain: "sorted_wrt (\<lambda>g g'. set g' \<subseteq> set g) (rounds st @ [graph st])"
    and busy: "\<forall>j<k. \<not> all_below nodes j (rounds st ! j)"
    and hd: "hd (rounds st @ [graph st]) = pairs nodes"
    by simp_all
  from busy Suc have "\<not> all_below nodes j (rounds st ! j)" by simp
  then obtain node where node: "node \<in> set nodes" "\<not> length (neighbors (rounds st ! j) node) < j"
    by (auto simp: all_below_def list_all_iff)
  have "set (rounds st ! j) \<subseteq> set (pairs nodes)"
  proof (cases j)
    case 0
    with hd len Suc show ?thesis by (cases "rounds st") simp_all
  next
    case (Suc i)
    from hd len \<open>k = Suc j\<close> have "(rounds st @ [graph st]) ! 0 = pairs nodes"
      by (cases "rounds st") simp_all
    moreover have "0 < j" "j < length (rounds st @ [graph st])"
      using Suc len \<open>k = Suc j\<close> by simp_all
    with chain have "set ((rounds st @ [graph st]) ! j) \<subseteq> set ((rounds st @ [graph st]) ! 0)"
      by (rule sorted_wrt_nth_less)
    ultimately show ?thesis using len \<open>k = Suc j\<close> by (simp add: nth_append)
  qed
  then have "edge_pairs (rounds st ! j) \<subseteq> edge_pairs (pairs nodes)" by (rule edge_pairs_mono)
  from degree_bound [OF d this node(1)] node(2) have "j < length nodes" by simp
  with Suc show ?thesis by simp
qed

text \<open>
  Claim C4. For a list of distinct variables \<open>estimate_skeleton\<close> always ends: either
  with an exception that the independence test raised or, after \<open>k\<close> passes, with the
  skeleton, where \<open>k\<close> is at most the number of variables, every node has fewer than \<open>k\<close>
  neighbours in the returned graph, and at the start of each earlier pass \<open>j\<close> some node
  still had at least \<open>j\<close> neighbours (the loop stops at the first check that succeeds).
  When the test never raises, the skeleton is returned.
\<close>

theorem skeleton_loop_ends_within_V_passes:
  assumes "distinct nodes"
  shows "(case estimate_skeleton_run test set_order p_value nodes of
            Inl e \<Rightarrow> \<exists>node neighbor s. test node neighbor s = Inl e
          | Inr (st, k) \<Rightarrow>
              k \<le> length nodes \<and> length (rounds st) = k \<and> all_below nodes k (graph st)
              \<and> (\<forall>j<k. \<not> all_below nodes j (rounds st ! j)))
       \<and> ((\<forall>node neighbor s. \<exists>v. test node neighbor s = Inr v)
            \<longrightarrow> (\<exists>st k. estimate_skeleton_run test set_order p_value nodes = Inr (st, k)))"
proof
  show "case estimate_skeleton_run test set_order p_value nodes of
            Inl e \<Rightarrow> \<exists>node neighbor s. test node neighbor s = Inl e
          | Inr (st, k) \<Rightarrow>
              k \<le> length nodes \<and> length (rounds st) = k \<and> all_below nodes k (graph st)
              \<and> (\<forall>j<k. \<not> all_below nodes j (rounds st ! j))"
  proof (cases "estimate_skeleton_run test set_order p_value nodes")
    case (Inl e)
    then have "\<exists>node neighbor s. test node neighbor s = Inl e"
      unfolding estimate_skeleton_run_def by (rule skeleton_loop_error)
    with Inl show ?thesis by simp
  next
    case (Inr r)
    obtain st k where r: "r = (st, k)" by (cases r)
    from estimate_skeleton_run_inv [OF Inr [unfolded r]] rounds_bound [OF assms Inr [unfolded r]]
    show ?thesis using Inr r by simp
  qed
  show "(\<forall>node neighbor s. \<exists>v. test node neighbor s = Inr v)
            \<longrightarrow> (\<exists>st k. estimate_skeleton_run test set_order p_value nodes = Inr (st, k))"
  proof
    assume "\<forall>node neighbor s. \<exists>v. test node neighbor s = Inr v"
    from skeleton_loop_total [OF this] show "\<exists>st k. estimate_skeleton_run test set_order p_value nodes = Inr (st, k)"
      unfolding estimate_skeleton_run_def by (metis surj_pair)
  qed
qed

theorem skeleton_loop_ends_witness:
  "distinct [0, 1, 2::nat]
   \<and> (\<forall>node neighbor s. \<exists>v. chain_test node neighbor s = Inr v)
   \<and> estimate_skeleton_run chain_test ascending (1/20) [0, 1, 2] = Inr (chain_final_state, 3)
   \<and> 3 \<le> length [0, 1, 2::nat]
   \<and> all_below [0, 1, 2] 3 (graph chain_final_state)
   \<and> \<not> all_below [0, 1, 2] 2 (rounds chain_final_state ! 2)
   \<and> (\<exists>st k. estimate_skeleton_run chain_test ascending (1/20) [0, 1, 2] = Inr (st, k))"
proof -
  have d: "distinct [0, 1, 2::nat]" by simp
  have t: "\<forall>node neighbor s. \<exists>v. chain_test node neighbor s = Inr v"
    by (simp add: chain_test_def)
  note th = skeleton_loop_ends_within_V_passes [OF d, of chain_test ascending "1/20"]
  from th [THEN conjunct2, THEN mp, OF t]
  have ex: "\<exists>st k. estimate_skeleton_run chain_test ascending (1/20) [0, 1, 2] = Inr (st, k)" .
  from th [THEN conjunct1] chain_run
  have "3 \<le> length [0, 1, 2::nat]" "all_below [0, 1, 2] 3 (graph chain_final_state)"
    "\<not> all_below [0, 1, 2] 2 (rounds chain_final_state ! 2)"
    by simp_all
  with d t ex chain_run show ?thesis by blast
qed

lemma combinations_member:
  "s \<in> set (combinations xs k) \<Longrightarrow> length s = k \<and> set s \<subseteq> set xs"
proof (induction xs k arbitrary: s rule: combinations.induct)
  case (1 xs)
  then show ?case by simp
next
  case (2 k)
  then show ?case by simp
next
  case (3 x xs k)
  from "3.prems" consider t where "s = x # t" "t \<in> set (combinations xs k)"
    | "s \<in> set (combinations xs (Suc k))" by auto
  then show ?case
  proof cases
    case 1
    with "3.IH"(1) [of t] show ?thesis by auto
  next
    case 2
    with "3.IH"(2) [of s] show ?thesis by auto
  qed
qed

lemma search_subsets_first:
  "search_subsets test p k node nb cs st = Inr st' \<Longrightarrow>
    (case find (\<lambda>s. passes test p (node, nb, s)) cs of
       None \<Rightarrow> st' = st\<lparr>tested := rev (map (\<lambda>s. (node, nb, s)) cs) @ tested st\<rparr>
     | Some s \<Rightarrow>
         st' = st\<lparr>tested := (node, nb, s)
                        # rev (map (\<lambda>s. (node, nb, s))
                                 (takeWhile (\<lambda>s. \<not> passes test p (node, nb, s)) cs)) @ tested st,
                   seperating_sets := ({node, nb}, s) # seperating_sets st,
                   removals := (node, nb, k, graph st, s) # removals st,
                   graph := remove_edge (graph st) node nb\<rparr>)"
proof (induction cs arbitrary: st)
  case Nil
  then show ?case by simp
next
  case (Cons c cs)
  from Cons.prems obtain v where v: "test node nb c = Inr v"
    by (cases "test node nb c") auto
  show ?case
  proof (cases "float_ge v p")
    case True
    with v have "passes test p (node, nb, c)" by (simp add: passes_def)
    with Cons.prems v True show ?thesis by (simp add: Let_def)
  next
    case False
    with v have np: "\<not> passes test p (node, nb, c)" by (simp add: passes_def)
    from Cons.prems v False
    have run: "search_subsets test p k node nb cs (st\<lparr>tested := (node, nb, c) # tested st\<rparr>) = Inr st'"
      by (simp add: Let_def)
    from Cons.IH [OF run] np show ?thesis
      by (cases "find (\<lambda>s. passes test p (node, nb, s)) cs") simp_all
  qed
qed

lemma search_subsets_removal_inv:
  assumes run: "search_subsets test p k node nb
                  (combinations (so (set_minus (neighbors (graph st) node) [nb])) k) st = Inr st'"
    and inv: "removal_inv test so p st"
    and adj: "has_edge (graph st) node nb"
    and k: "k < length (rounds st)" and sub: "set (graph st) \<subseteq> set (rounds st ! k)"
  shows "removal_inv test so p st' \<and> rounds st' = rounds st
     \<and> (graph st' = graph st \<or> graph st' = remove_edge (graph st) node nb)"
proof (cases "find (\<lambda>s. passes test p (node, nb, s))
                (combinations (so (set_minus (neighbors (graph st) node) [nb])) k)")
  case None
  with search_subsets_first [OF run]
  have "st' = st\<lparr>tested := rev (map (\<lambda>s. (node, nb, s))
                  (combinations (so (set_minus (neighbors (graph st) node) [nb])) k)) @ tested st\<rparr>"
    by simp
  with inv show ?thesis by (simp add: removal_inv_def)
next
  case (Some s)
  with search_subsets_first [OF run]
  have st': "st' = st\<lparr>tested := (node, nb, s)
                        # rev (map (\<lambda>s. (node, nb, s))
                                 (takeWhile (\<lambda>s. \<not> passes test p (node, nb, s))
                                   (combinations (so (set_minus (neighbors (graph st) node) [nb])) k)))
                          @ tested st,
                   seperating_sets := ({node, nb}, s) # seperating_sets st,
                   removals := (node, nb, k, graph st, s) # removals st,
                   graph := remove_edge (graph st) node nb\<rparr>"
    by simp
  have "removal_inv test so p st'"
    unfolding removal_inv_def
  proof (intro conjI ballI)
    show "seperating_sets st' = map (\<lambda>(node, nb, k, g, s). ({node, nb}, s)) (removals st')"
      using inv by (simp add: st' removal_inv_def)
  next
    fix r
    assume r: "r \<in> set (removals st')"
    show "case r of (node, nb, k, g, s) \<Rightarrow>
            has_edge g node nb \<and> k < length (rounds st') \<and> set g \<subseteq> set (rounds st' ! k)
          \<and> find (\<lambda>c. passes test p (node, nb, c))
               (combinations (so (set_minus (neighbors g node) [nb])) k) = Some s"
    proof (cases "r = (node, nb, k, graph st, s)")
      case True
      with adj k sub Some show ?thesis by (simp add: st')
    next
      case False
      with r have "r \<in> set (removals st)" by (simp add: st')
      with inv show ?thesis by (auto simp: removal_inv_def st')
    qed
  qed
  with st' show ?thesis by simp
qed

lemma for_neighbors_removal_inv:
  assumes "for_neighbors test so p k node nbs st = Inr st'"
    and "removal_inv test so p st" and "distinct nbs" and "\<forall>nb\<in>set nbs. has_edge (graph st) node nb"
    and "k < length (rounds st)" and "set (graph st) \<subseteq> set (rounds st ! k)"
  shows "removal_inv test so p st' \<and> rounds st' = rounds st \<and> set (graph st') \<subseteq> set (graph st)"
  using assms
proof (induction nbs arbitrary: st)
  case Nil
  then show ?case by simp
next
  case (Cons nb nbs)
  from Cons.prems(1) obtain st1 where
    s: "search_subsets test p k node nb (combinations (so (set_minus (neighbors (graph st) node) [nb])) k) st = Inr st1"
    and r: "for_neighbors test so p k node nbs st1 = Inr st'"
    by (auto split: sum.splits)
  from Cons.prems(4) have adj: "has_edge (graph st) node nb" by simp
  from search_subsets_removal_inv [OF s Cons.prems(2) adj Cons.prems(5,6)]
  have inv1: "removal_inv test so p st1" and r1: "rounds st1 = rounds st"
    and g1: "graph st1 = graph st \<or> graph st1 = remove_edge (graph st) node nb"
    by simp_all
  from g1 set_remove_edge [of "graph st" node nb] have sub1: "set (graph st1) \<subseteq> set (graph st)"
    by auto
  from Cons.prems(3) have d: "distinct nbs" and notin: "nb \<notin> set nbs" by simp_all
  have adj1: "\<forall>m\<in>set nbs. has_edge (graph st1) node m"
    using g1 Cons.prems(4) notin by (auto simp: has_edge_remove_edge)
  have k1: "k < length (rounds st1)" using Cons.prems(5) r1 by simp
  have in1: "set (graph st1) \<subseteq> set (rounds st1 ! k)" using sub1 Cons.prems(6) r1 by auto
  from Cons.IH [OF r inv1 d adj1 k1 in1]
  have inv': "removal_inv test so p st'" and r': "rounds st' = rounds st1"
    and g': "set (graph st') \<subseteq> set (graph st1)"
    by simp_all
  from g' sub1 have "set (graph st') \<subseteq> set (graph st)" by (rule subset_trans)
  with inv' r' r1 show ?case by simp
qed

lemma for_nodes_removal_inv:
  assumes "for_nodes test so p k ns st = Inr st'" and "removal_inv test so p st"
    and "k < length (rounds st)" and "set (graph st) \<subseteq> set (rounds st ! k)"
  shows "removal_inv test so p st' \<and> rounds st' = rounds st \<and> set (graph st') \<subseteq> set (graph st)"
  using assms
proof (induction ns arbitrary: st)
  case Nil
  then show ?case by simp
next
  case (Cons n ns)
  from Cons.prems(1) obtain st1 where
    s: "for_neighbors test so p k n (neighbors (graph st) n) st = Inr st1"
    and r: "for_nodes test so p k ns st1 = Inr st'"
    by (auto split: sum.splits)
  have "\<forall>nb\<in>set (neighbors (graph st) n). has_edge (graph st) n nb"
    by (simp add: set_neighbors)
  from for_neighbors_removal_inv [OF s Cons.prems(2) distinct_neighbors this Cons.prems(3,4)]
  have inv1: "removal_inv test so p st1" and r1: "rounds st1 = rounds st"
    and g1: "set (graph st1) \<subseteq> set (graph st)"
    by simp_all
  have k1: "k < length (rounds st1)" using Cons.prems(3) r1 by simp
  have in1: "set (graph st1) \<subseteq> set (rounds st1 ! k)" using g1 Cons.prems(4) r1 by auto
  from Cons.IH [OF r inv1 k1 in1]
  have inv': "removal_inv test so p st'" and r': "rounds st' = rounds st1"
    and g': "set (graph st') \<subseteq> set (graph st1)"
    by simp_all
  from g' g1 have "set (graph st') \<subseteq> set (graph st)" by (rule subset_trans)
  with inv' r' r1 show ?case by simp
qed

lemma removal_inv_start_pass:
  assumes inv: "removal_inv test so p st"
  shows "removal_inv test so p (st\<lparr>rounds := rounds st @ [graph st]\<rparr>)"
  unfolding removal_inv_def
proof (intro conjI ballI)
  show "seperating_sets (st\<lparr>rounds := rounds st @ [graph st]\<rparr>)
      = map (\<lambda>(node, nb, k, g, s). ({node, nb}, s)) (removals (st\<lparr>rounds := rounds st @ [graph st]\<rparr>))"
    using inv by (simp add: removal_inv_def)
next
  fix r
  assume "r \<in> set (removals (st\<lparr>rounds := rounds st @ [graph st]\<rparr>))"
  then have r: "r \<in> set (removals st)" by simp
  obtain node nb k g s where rr: "r = (node, nb, k, g, s)" by (cases r)
  from inv r rr have "has_edge g node nb" "k < length (rounds st)" "set g \<subseteq> set (rounds st ! k)"
    "find (\<lambda>c. passes test p (node, nb, c))
       (combinations (so (set_minus (neighbors g node) [nb])) k) = Some s"
    unfolding removal_inv_def by fast+
  then show "case r of (node, nb, k, g, s) \<Rightarrow>
            has_edge g node nb \<and> k < length (rounds (st\<lparr>rounds := rounds st @ [graph st]\<rparr>))
          \<and> set g \<subseteq> set (rounds (st\<lparr>rounds := rounds st @ [graph st]\<rparr>) ! k)
          \<and> find (\<lambda>c. passes test p (node, nb, c))
               (combinations (so (set_minus (neighbors g node) [nb])) k) = Some s"
    by (simp add: rr nth_append)
qed

lemma skeleton_loop_removal_inv:
  assumes "skeleton_loop test so p nodes k st = Inr (st', k')"
    and "removal_inv test so p st" and "length (rounds st) = k"
  shows "removal_inv test so p st'"
  using assms
proof (induction test so p nodes k st rule: skeleton_loop.induct)
  case (1 test so p nodes k st)
  show ?case
  proof (cases "all_below nodes k (graph st)")
    case True
    with "1.prems"(1) have "st' = st" by (simp add: skeleton_loop.simps)
    with "1.prems"(2) show ?thesis by simp
  next
    case False
    let ?st0 = "st\<lparr>rounds := rounds st @ [graph st]\<rparr>"
    from "1.prems"(1) False obtain st1 where
      pass: "for_nodes test so p k nodes ?st0 = Inr st1"
      and rest: "skeleton_loop test so p nodes (Suc k) st1 = Inr (st', k')"
      by (auto simp: skeleton_loop.simps split: sum.splits)
    have inv0: "removal_inv test so p ?st0"
      by (rule removal_inv_start_pass [OF "1.prems"(2)])
    have k0: "k < length (rounds ?st0)" using "1.prems"(3) by simp
    have "(rounds st @ [graph st]) ! k = graph st"
      using "1.prems"(3) by (simp add: nth_append)
    then have in0: "set (graph ?st0) \<subseteq> set (rounds ?st0 ! k)" by simp
    from for_nodes_removal_inv [OF pass inv0 k0 in0]
    have inv1: "removal_inv test so p st1" and r1: "rounds st1 = rounds st @ [graph st]"
      by simp_all
    have len1: "length (rounds st1) = Suc k" using r1 "1.prems"(3) by simp
    from "1.IH" [OF False pass rest inv1 len1] show ?thesis .
  qed
qed

lemma estimate_skeleton_run_removal_inv:
  assumes "estimate_skeleton_run test so p nodes = Inr (st, k)"
  shows "removal_inv test so p st"
  by (rule skeleton_loop_removal_inv [OF assms [unfolded estimate_skeleton_run_def]])
     (simp_all add: removal_inv_def)


lemma estimate_skeleton_of_run:
  "estimate_skeleton_run test so p nodes = Inr (st, k) \<Longrightarrow>
   estimate_skeleton test so p nodes = Inr (graph st, seperating_sets st)"
  by (simp add: estimate_skeleton_def)

lemma recorded_keys:
  assumes d: "distinct nodes" and inv: "skel_inv test p (edge_pairs (pairs nodes)) st"
  shows "set (map fst (seperating_sets st))
     = {{a, b} | a b. a \<in> set nodes \<and> b \<in> set nodes \<and> a \<noteq> b \<and> \<not> has_edge (graph st) a b}"
proof -
  have "set (map fst (seperating_sets st)) = edge_pairs (pairs nodes) - edge_pairs (graph st)"
    by (rule skel_invD(2) [OF inv])
  also have "\<dots> = {{a, b} | a b. a \<in> set nodes \<and> b \<in> set nodes \<and> a \<noteq> b \<and> \<not> has_edge (graph st) a b}"
    unfolding edge_pairs_pairs [OF d] has_edge_iff by blast
  finally show ?thesis .
qed

lemma removal_facts:
  assumes d: "distinct nodes"
    and inv: "skel_inv test p (edge_pairs (pairs nodes)) st"
    and rinv: "removal_inv test so p st"
    and r: "(node, nb, k, g, s) \<in> set (removals st)"
  shows "has_edge g node nb" and "\<not> has_edge (graph st) node nb"
    and "k < length (rounds st)" and "set g \<subseteq> set (rounds st ! k)" and "length s = k"
    and "find (\<lambda>c. passes test p (node, nb, c))
           (combinations (so (set_minus (neighbors g node) [nb])) k) = Some s"
    and "\<exists>v. test node nb s = Inr v \<and> float_ge v p"
proof -
  from rinv r show adj: "has_edge g node nb" and "k < length (rounds st)"
    and "set g \<subseteq> set (rounds st ! k)"
    and f: "find (\<lambda>c. passes test p (node, nb, c))
           (combinations (so (set_minus (neighbors g node) [nb])) k) = Some s"
    unfolding removal_inv_def by fast+
  from f have mem: "s \<in> set (combinations (so (set_minus (neighbors g node) [nb])) k)"
    and pass: "passes test p (node, nb, s)"
    by (auto simp: find_Some_iff)
  from combinations_member [OF mem] show "length s = k" by simp
  from pass show "\<exists>v. test node nb s = Inr v \<and> float_ge v p"
    by (cases "test node nb s") (simp_all add: passes_def)
  from rinv have "seperating_sets st = map (\<lambda>(node, nb, k, g, s). ({node, nb}, s)) (removals st)"
    by (simp add: removal_inv_def)
  with r have "{node, nb} \<in> set (map fst (seperating_sets st))" by force
  with skel_invD(2) [OF inv] have "{node, nb} \<notin> edge_pairs (graph st)" by blast
  then show "\<not> has_edge (graph st) node nb" by (simp add: has_edge_iff)
qed

text \<open>
  Claim C2. In a finished run over distinct variables the dictionary holds, entry for
  entry, the subsets recorded at the removals of edges. For each removal, made for
  \<open>node\<close> and \<open>neighbor\<close> in the pass with \<open>lim_neighbors = k\<close> on the working graph
  \<open>g\<close>: the edge was in \<open>g\<close> and is not in the returned graph; \<open>g\<close> is a graph of pass
  \<open>k\<close>; the recorded subset has size \<open>k\<close>, passed its test (a p-value that is at least
  \<open>p_value\<close>), and is the first subset that passes among the combinations of size \<open>k\<close>
  over the other neighbours of \<open>node\<close> in \<open>g\<close>, enumerated in the iteration order of the
  set; when that order lists exactly the elements of the set, the subset consists of
  other neighbours of \<open>node\<close>. No test is about a pair whose edge an older test has
  removed, every key was assigned once, and the keys are exactly the pairs of distinct
  variables that are not adjacent in the returned graph.
\<close>

theorem separating_set_recorded_once_per_removed_edge:
  assumes "distinct nodes"
  shows "estimate_skeleton_run test set_order p_value nodes = Inr (st, k_end)
       \<longrightarrow> estimate_skeleton test set_order p_value nodes = Inr (graph st, seperating_sets st)
         \<and> seperating_sets st
             = map (\<lambda>(node, neighbor, k, g, s). ({node, neighbor}, s)) (removals st)
         \<and> (\<forall>(node, neighbor, k, g, s)\<in>set (removals st).
               has_edge g node neighbor \<and> \<not> has_edge (graph st) node neighbor
             \<and> k < length (rounds st) \<and> set g \<subseteq> set (rounds st ! k)
             \<and> length s = k
             \<and> find (\<lambda>c. passes test p_value (node, neighbor, c))
                  (combinations (set_order (set_minus (neighbors g node) [neighbor])) k) = Some s
             \<and> (\<exists>v. test node neighbor s = Inr v \<and> float_ge v p_value)
             \<and> ((\<forall>xs. set (set_order xs) = set xs)
                  \<longrightarrow> set s \<subseteq> set (neighbors g node) - {neighbor}))
         \<and> sorted_wrt (\<lambda>newer older. passes test p_value older \<longrightarrow> test_pair newer \<noteq> test_pair older)
              (tested st)
         \<and> distinct (map fst (seperating_sets st))
         \<and> set (map fst (seperating_sets st))
             = {{a, b} | a b. a \<in> set nodes \<and> b \<in> set nodes \<and> a \<noteq> b \<and> \<not> has_edge (graph st) a b}"
proof (intro impI conjI ballI)
  assume run: "estimate_skeleton_run test set_order p_value nodes = Inr (st, k_end)"
  from estimate_skeleton_run_inv [OF run]
  have inv: "skel_inv test p_value (edge_pairs (pairs nodes)) st" by simp
  from estimate_skeleton_run_removal_inv [OF run]
  have rinv: "removal_inv test set_order p_value st" .
  show "estimate_skeleton test set_order p_value nodes = Inr (graph st, seperating_sets st)"
    by (rule estimate_skeleton_of_run [OF run])
  show "seperating_sets st = map (\<lambda>(node, neighbor, k, g, s). ({node, neighbor}, s)) (removals st)"
    using rinv by (simp add: removal_inv_def)
  show "sorted_wrt (\<lambda>newer older. passes test p_value older \<longrightarrow> test_pair newer \<noteq> test_pair older)
          (tested st)"
    by (rule skel_invD(5) [OF inv])
  show "distinct (map fst (seperating_sets st))"
    by (rule skel_invD(1) [OF inv])
  show "set (map fst (seperating_sets st))
      = {{a, b} | a b. a \<in> set nodes \<and> b \<in> set nodes \<and> a \<noteq> b \<and> \<not> has_edge (graph st) a b}"
    by (rule recorded_keys [OF assms inv])
  fix r
  assume r: "r \<in> set (removals st)"
  obtain node neighbor k g s where rr: "r = (node, neighbor, k, g, s)" by (cases r)
  note facts = removal_facts [OF assms inv rinv r [unfolded rr]]
  have "set s \<subseteq> set (neighbors g node) - {neighbor}" if so: "\<forall>xs. set (set_order xs) = set xs"
  proof -
    from facts(6) have "s \<in> set (combinations (set_order (set_minus (neighbors g node) [neighbor])) k)"
      by (auto simp: find_Some_iff)
    from combinations_member [OF this] so
    have "set s \<subseteq> set (set_minus (neighbors g node) [neighbor])" by simp
    then show ?thesis by (auto simp: set_minus_def)
  qed
  with facts
  show "case r of (node, neighbor, k, g, s) \<Rightarrow>
               has_edge g node neighbor \<and> \<not> has_edge (graph st) node neighbor
             \<and> k < length (rounds st) \<and> set g \<subseteq> set (rounds st ! k)
             \<and> length s = k
             \<and> find (\<lambda>c. passes test p_value (node, neighbor, c))
                  (combinations (set_order (set_minus (neighbors g node) [neighbor])) k) = Some s
             \<and> (\<exists>v. test node neighbor s = Inr v \<and> float_ge v p_value)
             \<and> ((\<forall>xs. set (set_order xs) = set xs)
                  \<longrightarrow> set s \<subseteq> set (neighbors g node) - {neighbor})"
    unfolding rr by simp
qed

lemma two_sets_run:
  "estimate_skeleton_run two_sets_test ascending (1/20) [0, 1, 3, 2] = Inr (two_sets_final_state, 3)"
  by (simp add: estimate_skeleton_run_def skeleton_loop.simps all_below_def neighbors_def
      remove_edge_def set_minus_def ascending_def two_sets_test_def two_sets_final_state_def
      doubleton_eq_iff Let_def)

theorem separating_set_recorded_witness:
  "distinct [0, 1, 3, 2::nat]
   \<and> (\<forall>xs. set (ascending xs) = set xs)
   \<and> estimate_skeleton_run two_sets_test ascending (1/20) [0, 1, 3, 2] = Inr (two_sets_final_state, 3)
   \<and> estimate_skeleton two_sets_test ascending (1/20) [0, 1, 3, 2]
       = Inr ([(0, 3), (0, 2), (1, 3), (1, 2)], [({3, 2}, [1]), ({0, 1}, [2])])
   \<and> removals two_sets_final_state
       = [(3, 2, 1, [(0, 3), (0, 2), (1, 3), (1, 2), (3, 2)], [1]),
          (0, 1, 1, [(0, 1), (0, 3), (0, 2), (1, 3), (1, 2), (3, 2)], [2])]
   \<and> combinations (ascending (set_minus
        (neighbors [(0, 1), (0, 3), (0, 2), (1, 3), (1, 2), (3, 2)] 0) [1])) 1 = [[2], [3]]
   \<and> find (\<lambda>c. passes two_sets_test (1/20) (0, 1, c))
        (combinations (ascending (set_minus
           (neighbors [(0, 1), (0, 3), (0, 2), (1, 3), (1, 2), (3, 2)] 0) [1])) 1) = Some [2]
   \<and> combinations (ascending (set_minus
        (neighbors [(0, 3), (0, 2), (1, 3), (1, 2), (3, 2)] 3) [2])) 1 = [[0], [1]]
   \<and> find (\<lambda>c. passes two_sets_test (1/20) (3, 2, c))
        (combinations (ascending (set_minus
           (neighbors [(0, 3), (0, 2), (1, 3), (1, 2), (3, 2)] 3) [2])) 1) = Some [1]
   \<and> set [2::nat] \<subseteq> set (neighbors [(0, 1), (0, 3), (0, 2), (1, 3), (1, 2), (3, 2)] 0) - {1}
   \<and> \<not> has_edge (graph two_sets_final_state) 0 1
   \<and> sorted_wrt (\<lambda>newer older. passes two_sets_test (1/20) older \<longrightarrow> test_pair newer \<noteq> test_pair older)
        (tested two_sets_final_state)
   \<and> distinct (map fst (seperating_sets two_sets_final_state))
   \<and> set (map fst (seperating_sets two_sets_final_state))
       = {{a, b} | a b. a \<in> set [0, 1, 3, 2] \<and> b \<in> set [0, 1, 3, 2] \<and> a \<noteq> b
                        \<and> \<not> has_edge (graph two_sets_final_state) a b}"
proof -
  have d: "distinct [0, 1, 3, 2::nat]" by simp
  have so: "\<forall>xs. set (ascending xs) = set xs" by (simp add: ascending_def)
  have rem: "removals two_sets_final_state
       = [(3, 2, 1, [(0, 3), (0, 2), (1, 3), (1, 2), (3, 2)], [1]),
          (0, 1, 1, [(0, 1), (0, 3), (0, 2), (1, 3), (1, 2), (3, 2)], [2])]"
    by (simp add: two_sets_final_state_def)
  have c1: "combinations (ascending (set_minus
        (neighbors [(0, 1), (0, 3), (0, 2), (1, 3), (1, 2), (3, 2)] 0) [1])) 1 = [[2], [3::nat]]"
    by (simp add: neighbors_def set_minus_def ascending_def)
  have c2: "combinations (ascending (set_minus
        (neighbors [(0, 3), (0, 2), (1, 3), (1, 2), (3, 2)] 3) [2])) 1 = [[0], [1::nat]]"
    by (simp add: neighbors_def set_minus_def ascending_def)
  note th = separating_set_recorded_once_per_removed_edge
              [OF d, of two_sets_test ascending "1/20" two_sets_final_state 3, THEN mp, OF two_sets_run]
  from th have est: "estimate_skeleton two_sets_test ascending (1/20) [0, 1, 3, 2]
       = Inr (graph two_sets_final_state, seperating_sets two_sets_final_state)"
    by (rule conjunct1)
  from th [THEN conjunct2, THEN conjunct2, THEN conjunct1]
  have all: "\<forall>(node, neighbor, k, g, s)\<in>set (removals two_sets_final_state).
               has_edge g node neighbor \<and> \<not> has_edge (graph two_sets_final_state) node neighbor
             \<and> k < length (rounds two_sets_final_state) \<and> set g \<subseteq> set (rounds two_sets_final_state ! k)
             \<and> length s = k
             \<and> find (\<lambda>c. passes two_sets_test (1/20) (node, neighbor, c))
                  (combinations (ascending (set_minus (neighbors g node) [neighbor])) k) = Some s
             \<and> (\<exists>v. two_sets_test node neighbor s = Inr v \<and> float_ge v (1/20))
             \<and> ((\<forall>xs. set (ascending xs) = set xs)
                  \<longrightarrow> set s \<subseteq> set (neighbors g node) - {neighbor})" .
  have m1: "(0, 1, 1, [(0, 1), (0, 3), (0, 2), (1, 3), (1, 2), (3, 2)], [2])
      \<in> set (removals two_sets_final_state)"
    and m2: "(3, 2, 1, [(0, 3), (0, 2), (1, 3), (1, 2), (3, 2)], [1])
      \<in> set (removals two_sets_final_state)"
    by (simp_all add: rem)
  note i1 = bspec [OF all m1, unfolded prod.case]
  note i2 = bspec [OF all m2, unfolded prod.case]
  from i1 have f1: "find (\<lambda>c. passes two_sets_test (1/20) (0, 1, c))
        (combinations (ascending (set_minus
           (neighbors [(0, 1), (0, 3), (0, 2), (1, 3), (1, 2), (3, 2)] 0) [1])) 1) = Some [2]"
    by blast
  from i2 have f2: "find (\<lambda>c. passes two_sets_test (1/20) (3, 2, c))
        (combinations (ascending (set_minus
           (neighbors [(0, 3), (0, 2), (1, 3), (1, 2), (3, 2)] 3) [2])) 1) = Some [1]"
    by blast
  from i1 so
  have sub: "set [2::nat] \<subseteq> set (neighbors [(0, 1), (0, 3), (0, 2), (1, 3), (1, 2), (3, 2)] 0) - {1}"
    by blast
  from i1 have gone: "\<not> has_edge (graph two_sets_final_state) 0 1"
    by blast
  note tail = th [THEN conjunct2, THEN conjunct2, THEN conjunct2]
  from tail [THEN conjunct1]
  have r1: "sorted_wrt (\<lambda>newer older. passes two_sets_test (1/20) older \<longrightarrow> test_pair newer \<noteq> test_pair older)
        (tested two_sets_final_state)" .
  from tail [THEN conjunct2, THEN conjunct1]
  have r2: "distinct (map fst (seperating_sets two_sets_final_state))" .
  from tail [THEN conjunct2, THEN conjunct2]
  have r3: "set (map fst (seperating_sets two_sets_final_state))
       = {{a, b} | a b. a \<in> set [0, 1, 3, 2] \<and> b \<in> set [0, 1, 3, 2] \<and> a \<noteq> b
                        \<and> \<not> has_edge (graph two_sets_final_state) a b}" .
  from est have est': "estimate_skeleton two_sets_test ascending (1/20) [0, 1, 3, 2]
       = Inr ([(0, 3), (0, 2), (1, 3), (1, 2)], [({3, 2}, [1]), ({0, 1}, [2])])"
    by (simp add: two_sets_final_state_def)
  from d so two_sets_run est' rem c1 f1 c2 f2 sub gone r1 r2 r3 show ?thesis by (intro conjI)
qed

end
